theory Spec2Isabelle
  imports Main "HOL-Library.AList"
begin

section \<open>Common types\<close>

text \<open>
  Page ids and frame ids are C++ \<open>int32_t\<close> values (\<open>page_id_t\<close>, \<open>frame_id_t\<close>).
  They are modelled as unbounded \<open>int\<close>: no computation in the modelled code
  comes near the 32-bit limits except the allocator counters, which would have to be
  advanced two thousand million times first. Logical timestamps and sizes are
  \<open>size_t\<close> in the source and \<open>nat\<close> here.
\<close>

type_synonym page_id_t = int
type_synonym frame_id_t = int

text \<open>
  Modelled from the spec: the constant \<open>INVALID_PAGE_ID\<close> is declared in a header that
  is not part of the sources at hand. The specification only says that it is a
  distinguished sentinel different from every (non-negative) page id; the value \<open>-1\<close>
  is the one every page id comparison below is consistent with.
\<close>

definition INVALID_PAGE_ID :: page_id_t where
  "INVALID_PAGE_ID = -1"

text \<open>
  The key comparator of the templates returns a negative, zero or positive \<open>int\<close>.
  It is modelled by the order of a linearly ordered key type.
\<close>

definition comparator :: "'k::linorder \<Rightarrow> 'k \<Rightarrow> int" where
  "comparator a b = (if a < b then -1 else if a = b then 0 else 1)"

section \<open>Leaf page helpers (\<open>b_plus_tree_leaf_page.cpp\<close>)\<close>

text \<open>
  A leaf page holds \<open>size\<close> live slots of \<open>array\<close>. The model keeps exactly the live
  slots in a list, so \<open>GetSize\<close> is the length of the list; the source never reads a
  slot at or beyond \<open>size\<close> before it has written it.
\<close>

record ('k, 'v) BPlusTreeLeafPage =
  leaf_array :: "('k \<times> 'v) list"
  leaf_next_page_id :: page_id_t

definition leaf_GetSize :: "('k, 'v) BPlusTreeLeafPage \<Rightarrow> int" where
  "leaf_GetSize p = int (length (leaf_array p))"

text \<open>
  \<open>LowerBound\<close>: the loop \<open>for (i = GetSize() - 1; i >= 0; i--)\<close> returns the first
  \<open>i\<close> (from the right) with \<open>comparator(key, array[i].first) >= 0\<close>, and \<open>-1\<close> when
  the loop runs out. \<open>leaf_LowerBound_loop arr key n\<close> is the loop about to test slot
  \<open>n - 1\<close>.
\<close>

fun leaf_LowerBound_loop :: "('k::linorder \<times> 'v) list \<Rightarrow> 'k \<Rightarrow> nat \<Rightarrow> int" where
  "leaf_LowerBound_loop arr key 0 = -1"
| "leaf_LowerBound_loop arr key (Suc i) =
     (if comparator key (fst (arr ! i)) \<ge> 0 then int i
      else leaf_LowerBound_loop arr key i)"

definition leaf_LowerBound :: "('k::linorder, 'v) BPlusTreeLeafPage \<Rightarrow> 'k \<Rightarrow> int" where
  "leaf_LowerBound p key = leaf_LowerBound_loop (leaf_array p) key (length (leaf_array p))"

text \<open>
  \<open>Insert\<close>: the first loop looks for the first slot whose key is not smaller than
  \<open>key\<close>; an equal key makes the function return \<open>false\<close>. \<open>leaf_Insert_index arr key i\<close>
  is that loop at \<open>index = i\<close>; \<open>None\<close> stands for the early \<open>return false\<close>.
\<close>

function leaf_Insert_index :: "('k::linorder \<times> 'v) list \<Rightarrow> 'k \<Rightarrow> nat \<Rightarrow> nat option" where
  "leaf_Insert_index arr key i =
     (if i < length arr then
        (if comparator key (fst (arr ! i)) = 0 then None
         else if comparator key (fst (arr ! i)) < 0 then Some i
         else leaf_Insert_index arr key (Suc i))
      else Some i)"
  by pat_completeness auto
termination
  by (relation "measure (\<lambda>(arr, key, i). length arr - i)") auto

declare leaf_Insert_index.simps [simp del]

text \<open>
  Shifting the slots \<open>index .. size - 1\<close> one place to the right and storing the new
  pair at \<open>index\<close> is list insertion at \<open>index\<close>.
\<close>

definition leaf_Insert ::
  "('k::linorder, 'v) BPlusTreeLeafPage \<Rightarrow> 'k \<Rightarrow> 'v \<Rightarrow> bool \<times> ('k, 'v) BPlusTreeLeafPage" where
  "leaf_Insert p key val =
     (case leaf_Insert_index (leaf_array p) key 0 of
        None \<Rightarrow> (False, p)
      | Some index \<Rightarrow>
          (True, p\<lparr>leaf_array := take index (leaf_array p) @ [(key, val)] @ drop index (leaf_array p)\<rparr>))"

text \<open>
  \<open>Remove\<close>: takes the slot that \<open>LowerBound\<close> returns, without comparing its key with
  \<open>key\<close>; \<open>for (i = index; i < GetSize() - 1; i++) array[i] = array[i + 1]\<close> followed
  by \<open>IncreaseSize(-1)\<close> deletes the slot \<open>index\<close> from the live slots.
\<close>

definition leaf_Remove ::
  "('k::linorder, 'v) BPlusTreeLeafPage \<Rightarrow> 'k \<Rightarrow> bool \<times> ('k, 'v) BPlusTreeLeafPage" where
  "leaf_Remove p key =
     (let index = leaf_LowerBound p key in
      if index = -1 then (False, p)
      else (True, p\<lparr>leaf_array := take (nat index) (leaf_array p) @ drop (Suc (nat index)) (leaf_array p)\<rparr>))"

section \<open>LRU-K replacer (\<open>lru_k_replacer.cpp\<close>, the scanning variant)\<close>

text \<open>
  Exceptions and out-of-bounds container accesses are values of \<open>error\<close>:
  \<open>invalid_argument msg\<close> is the C++ exception \<open>std::invalid_argument(msg)\<close>;
  \<open>undefined_behaviour\<close> marks an execution that indexes a vector out of range or
  calls \<open>back()\<close> on an empty list, where C++ promises nothing.
\<close>

datatype error = invalid_argument string | undefined_behaviour

text \<open>
  The three vectors \<open>history\<close>, \<open>allocated\<close> and \<open>evictable\<close> are lists indexed by
  frame id; a history list has its most recent timestamp in front (\<open>push_front\<close>), so
  \<open>back()\<close> is \<open>last\<close> and \<open>pop_back()\<close> is \<open>butlast\<close>. \<open>curr_size\<close> and
  \<open>current_timestamp\<close> are \<open>size_t\<close>: decrementing and subtracting wrap modulo
  \<open>2 ^ 64\<close>.
\<close>

record LRUKReplacer =
  history :: "nat list list"
  allocated :: "bool list"
  evictable :: "bool list"
  current_timestamp :: nat
  curr_size :: nat
  replacer_size :: nat
  k :: nat

definition size_t_sub :: "nat \<Rightarrow> nat \<Rightarrow> nat" where
  "size_t_sub a b = (if b \<le> a then a - b else a + 2 ^ 64 - b)"

definition LRUKReplacer_new :: "nat \<Rightarrow> nat \<Rightarrow> LRUKReplacer" where
  "LRUKReplacer_new num_frames kk =
     \<lparr>history = replicate num_frames [], allocated = replicate num_frames False,
      evictable = replicate num_frames False, current_timestamp = 0, curr_size = 0,
      replacer_size = num_frames, k = kk\<rparr>"

definition IsValidFrameId :: "LRUKReplacer \<Rightarrow> frame_id_t \<Rightarrow> bool" where
  "IsValidFrameId r frame_id = (frame_id < int (replacer_size r))"

text \<open>A frame id indexes the vectors inside their bounds.\<close>

definition in_bounds :: "LRUKReplacer \<Rightarrow> frame_id_t \<Rightarrow> bool" where
  "in_bounds r frame_id =
     (0 \<le> frame_id \<and> nat frame_id < length (history r) \<and>
      nat frame_id < length (allocated r) \<and> nat frame_id < length (evictable r))"

definition RemoveInternal :: "LRUKReplacer \<Rightarrow> frame_id_t \<Rightarrow> error + LRUKReplacer" where
  "RemoveInternal r frame_id =
     (if \<not> in_bounds r frame_id then Inl undefined_behaviour
      else Inr (r\<lparr>history := (history r)[nat frame_id := []],
                  evictable := (evictable r)[nat frame_id := False],
                  allocated := (allocated r)[nat frame_id := False],
                  curr_size := size_t_sub (curr_size r) 1\<rparr>))"

text \<open>
  The first loop of \<open>Evict\<close>, over the frame indices still to visit, carrying
  \<open>(fid, highest_diff)\<close>. A frame whose history does not have \<open>k\<close> entries sets
  \<open>highest_diff = 1e9\<close> and leaves the loop (\<open>break\<close>).
\<close>

fun Evict_loop1 :: "LRUKReplacer \<Rightarrow> nat list \<Rightarrow> frame_id_t \<times> nat \<Rightarrow> error + (frame_id_t \<times> nat)" where
  "Evict_loop1 r [] (fid, highest_diff) = Inr (fid, highest_diff)"
| "Evict_loop1 r (i # rest) (fid, highest_diff) =
     (if \<not> allocated r ! i \<or> \<not> evictable r ! i then Evict_loop1 r rest (fid, highest_diff)
      else if length (history r ! i) = k r then
        (if history r ! i = [] then Inl undefined_behaviour
         else let diff = size_t_sub (current_timestamp r) (last (history r ! i)) in
              if diff > highest_diff then Evict_loop1 r rest (int i, diff)
              else Evict_loop1 r rest (fid, highest_diff))
      else Inr (fid, 1000000000))"

text \<open>The second loop, carrying \<open>(fid, earliest_time)\<close>.\<close>

fun Evict_loop2 :: "LRUKReplacer \<Rightarrow> nat list \<Rightarrow> frame_id_t \<times> nat \<Rightarrow> error + (frame_id_t \<times> nat)" where
  "Evict_loop2 r [] (fid, earliest_time) = Inr (fid, earliest_time)"
| "Evict_loop2 r (i # rest) (fid, earliest_time) =
     (if \<not> allocated r ! i \<or> \<not> evictable r ! i \<or> length (history r ! i) = k r
      then Evict_loop2 r rest (fid, earliest_time)
      else if history r ! i = [] then Inl undefined_behaviour
      else if last (history r ! i) < earliest_time
      then Evict_loop2 r rest (int i, last (history r ! i))
      else Evict_loop2 r rest (fid, earliest_time))"

text \<open>
  \<open>Evict\<close> returns \<open>None\<close> for \<open>false\<close> and \<open>Some fid\<close> for \<open>true\<close> with
  \<open>*frame_id = fid\<close>; the local variable \<open>id\<close> of the source is called \<open>fid\<close> here.
\<close>

definition Evict :: "LRUKReplacer \<Rightarrow> error + (frame_id_t option \<times> LRUKReplacer)" where
  "Evict r =
     (if curr_size r = 0 then Inr (None, r)
      else case Evict_loop1 r [0..<replacer_size r] (1000000000, 0) of
          Inl e \<Rightarrow> Inl e
        | Inr (id1, highest_diff) \<Rightarrow>
            (case (if highest_diff = 1000000000
                   then Evict_loop2 r [0..<replacer_size r] (id1, current_timestamp r)
                   else Inr (id1, 0)) of
               Inl e \<Rightarrow> Inl e
             | Inr (fid, _) \<Rightarrow>
                 (case RemoveInternal r fid of
                    Inl e \<Rightarrow> Inl e
                  | Inr r' \<Rightarrow> Inr (Some fid, r'))))"

definition RecordAccess :: "LRUKReplacer \<Rightarrow> frame_id_t \<Rightarrow> error + LRUKReplacer" where
  "RecordAccess r frame_id =
     (if \<not> IsValidFrameId r frame_id
      then Inl (invalid_argument ''RecordAccess(): frame_id is invalid'')
      else if \<not> in_bounds r frame_id then Inl undefined_behaviour
      else
        let f = nat frame_id;
            r1 = (if \<not> allocated r ! f
                  then r\<lparr>allocated := (allocated r)[f := True],
                         evictable := (evictable r)[f := False]\<rparr>
                  else r);
            h = current_timestamp r1 # (history r1 ! f);
            r2 = r1\<lparr>history := (history r1)[f := h],
                    current_timestamp := current_timestamp r1 + 1\<rparr>
        in if length h > k r2
           then Inr (r2\<lparr>history := (history r2)[f := butlast h]\<rparr>)
           else Inr r2)"

definition SetEvictable :: "LRUKReplacer \<Rightarrow> frame_id_t \<Rightarrow> bool \<Rightarrow> error + LRUKReplacer" where
  "SetEvictable r frame_id set_evictable =
     (if \<not> IsValidFrameId r frame_id
      then Inl (invalid_argument ''SetEvictable(): frame_id is invalid'')
      else if \<not> in_bounds r frame_id then Inl undefined_behaviour
      else
        let f = nat frame_id in
        if \<not> allocated r ! f then Inr r
        else
          let r1 = (if \<not> evictable r ! f \<and> set_evictable
                    then r\<lparr>curr_size := curr_size r + 1\<rparr> else r);
              r2 = (if evictable r ! f \<and> \<not> set_evictable
                    then r1\<lparr>curr_size := size_t_sub (curr_size r1) 1\<rparr> else r1)
          in Inr (r2\<lparr>evictable := (evictable r2)[f := set_evictable]\<rparr>))"

text \<open>
  \<open>Remove\<close>: the guard \<open>!IsValidFrameId(frame_id) || !allocated[frame_id]\<close> returns
  without an exception; \<open>||\<close> does not read \<open>allocated\<close> when the id is invalid.
\<close>

definition Remove :: "LRUKReplacer \<Rightarrow> frame_id_t \<Rightarrow> error + LRUKReplacer" where
  "Remove r frame_id =
     (if \<not> IsValidFrameId r frame_id then Inr r
      else if \<not> in_bounds r frame_id then Inl undefined_behaviour
      else if \<not> allocated r ! nat frame_id then Inr r
      else if \<not> evictable r ! nat frame_id
      then Inl (invalid_argument ''Remove(): Frame is not evictable'')
      else RemoveInternal r frame_id)"

definition Size :: "LRUKReplacer \<Rightarrow> nat" where
  "Size r = curr_size r"

text \<open>
  The frames \<open>Evict\<close> chooses from: those that both loops do not skip. Their number is
  what \<open>curr_size\<close> counts.
\<close>

definition evictable_frames :: "LRUKReplacer \<Rightarrow> nat list" where
  "evictable_frames r =
     filter (\<lambda>i. allocated r ! i \<and> evictable r ! i) [0..<replacer_size r]"

text \<open>
  What the operations keep true of every frame: a frame is allocated exactly when it has
  a recorded access, it keeps at most \<open>k\<close> timestamps, and every timestamp was handed
  out before \<open>current_timestamp\<close>.
\<close>

definition frame_ok :: "LRUKReplacer \<Rightarrow> nat \<Rightarrow> bool" where
  "frame_ok r i =
     ((allocated r ! i \<longleftrightarrow> history r ! i \<noteq> []) \<and> length (history r ! i) \<le> k r \<and>
      (\<forall>t \<in> set (history r ! i). t < current_timestamp r))"

text \<open>
  The states of a replacer that the constructor and the operations produce: the three
  vectors have \<open>num_frames\<close> entries, \<open>k\<close> is positive and \<open>curr_size\<close> is the number
  of evictable frames.
\<close>

definition wf_replacer :: "LRUKReplacer \<Rightarrow> bool" where
  "wf_replacer r =
     (length (history r) = replacer_size r \<and> length (allocated r) = replacer_size r \<and>
      length (evictable r) = replacer_size r \<and> 1 \<le> k r \<and>
      curr_size r = length (evictable_frames r) \<and>
      (\<forall>i \<in> set [0..<replacer_size r]. frame_ok r i))"

definition ev :: "LRUKReplacer \<Rightarrow> nat \<Rightarrow> bool" where
  "ev r i = (allocated r ! i \<and> evictable r ! i)"

text \<open>
  The eviction policy, in the words of the specification: the victim \<open>v\<close> is an evictable
  frame; if some evictable frame has fewer than \<open>k\<close> recorded accesses, \<open>v\<close> is such a
  frame and its earliest recorded access is the smallest among them; otherwise \<open>v\<close> has
  \<open>k\<close> recorded accesses and its \<open>k\<close>-th most recent one (the last of its history) is the
  smallest of all.
\<close>

definition Evict_spec :: "LRUKReplacer \<Rightarrow> nat \<Rightarrow> bool" where
  "Evict_spec r v =
     (v \<in> set (evictable_frames r) \<and>
      (if \<exists>i\<in>set (evictable_frames r). length (history r ! i) < k r
       then length (history r ! v) < k r \<and>
            (\<forall>i\<in>set (evictable_frames r). length (history r ! i) < k r \<longrightarrow>
                last (history r ! v) \<le> last (history r ! i))
       else length (history r ! v) = k r \<and>
            (\<forall>i\<in>set (evictable_frames r). last (history r ! v) \<le> last (history r ! i))))"

text \<open>
  A replacer with five frames and \<open>k = 2\<close> after the accesses \<open>1, 2, 3, 4, 4, 1, 3\<close>
  (timestamps \<open>0 .. 6\<close>), frames 1, 2 and 4 evictable.
\<close>

definition example_replacer :: LRUKReplacer where
  "example_replacer =
     \<lparr>history = [[], [5, 0], [1], [6, 2], [4, 3]],
      allocated = [False, True, True, True, True],
      evictable = [False, True, True, False, True],
      current_timestamp = 7, curr_size = 3, replacer_size = 5, k = 2\<rparr>"

section \<open>LRU-K replacer (\<open>lru_k_replacer.cpp\<close>, the variant with two maps)\<close>

text \<open>
  The second version of the replacer keeps, beside the three vectors, two containers
  \<open>complete_histories_\<close> and \<open>incomplete_histories_\<close> from a timestamp to a frame id,
  and \<open>Evict\<close> takes \<open>begin()\<close> of one of them instead of scanning the frames.
\<close>

text \<open>
  Modelled from the spec: the declaration of the two containers (\<open>lru_k_replacer.h\<close>) is
  not among the sources. The code uses them through \<open>begin()\<close>, \<open>find\<close>, \<open>erase(key)\<close>
  and \<open>operator[]\<close>, and the policy of the specification (the smallest earliest timestamp
  goes first) is what \<open>begin()\<close> gives in a container ordered by its keys; they are taken
  to be \<open>std::map<size_t, frame_id_t>\<close>. Such a map is a list of pairs in the order of the
  keys: \<open>begin()\<close> is its head, \<open>m[key] = v\<close> is \<open>map_set\<close>, \<open>m.erase(key)\<close>
  is \<open>map_erase\<close>.
\<close>

fun map_set :: "(nat \<times> 'a) list \<Rightarrow> nat \<Rightarrow> 'a \<Rightarrow> (nat \<times> 'a) list" where
  "map_set [] key v = [(key, v)]"
| "map_set (p # ps) key v =
     (if key < fst p then (key, v) # p # ps
      else if key = fst p then (key, v) # ps
      else p # map_set ps key v)"

definition map_erase :: "(nat \<times> 'a) list \<Rightarrow> nat \<Rightarrow> (nat \<times> 'a) list" where
  "map_erase m key = filter (\<lambda>p. fst p \<noteq> key) m"

text \<open>
  The state is the state of the scanning variant (\<open>core\<close>: the vectors, the counters and
  the two constants) with the two maps.
\<close>

record LRUKReplacerM =
  core :: LRUKReplacer
  complete_histories :: "(nat \<times> frame_id_t) list"
  incomplete_histories :: "(nat \<times> frame_id_t) list"

definition LRUKReplacerM_new :: "nat \<Rightarrow> nat \<Rightarrow> LRUKReplacerM" where
  "LRUKReplacerM_new num_frames kk =
     \<lparr>core = LRUKReplacer_new num_frames kk, complete_histories = [],
      incomplete_histories = []\<rparr>"

text \<open>
  \<open>RemoveInternal\<close> erases the key \<open>history_[frame_id].back()\<close> from both maps (the test
  \<open>find(key) != end()\<close> before \<open>erase(key)\<close> changes nothing) and then clears the frame.
\<close>

definition RemoveInternalM :: "LRUKReplacerM \<Rightarrow> frame_id_t \<Rightarrow> error + LRUKReplacerM" where
  "RemoveInternalM r frame_id =
     (if \<not> in_bounds (core r) frame_id then Inl undefined_behaviour
      else if history (core r) ! nat frame_id = [] then Inl undefined_behaviour
      else
        let key = last (history (core r) ! nat frame_id) in
        Inr (r\<lparr>complete_histories := map_erase (complete_histories r) key,
                incomplete_histories := map_erase (incomplete_histories r) key,
                core := (core r)\<lparr>history := (history (core r))[nat frame_id := []],
                                  evictable := (evictable (core r))[nat frame_id := False],
                                  allocated := (allocated (core r))[nat frame_id := False],
                                  curr_size := size_t_sub (curr_size (core r)) 1\<rparr>\<rparr>))"

text \<open>
  \<open>Evict\<close>: the victim is the frame of the first entry of \<open>incomplete_histories_\<close> if
  that map is not empty, else of the first entry of \<open>complete_histories_\<close>; \<open>begin()\<close> of
  an empty map is not dereferenceable.
\<close>

definition EvictM :: "LRUKReplacerM \<Rightarrow> error + (frame_id_t option \<times> LRUKReplacerM)" where
  "EvictM r =
     (if curr_size (core r) = 0 then Inr (None, r)
      else
        (case (if incomplete_histories r \<noteq> [] then incomplete_histories r
               else complete_histories r) of
           [] \<Rightarrow> Inl undefined_behaviour
         | p # _ \<Rightarrow>
             (case RemoveInternalM r (snd p) of
                Inl e \<Rightarrow> Inl e
              | Inr r' \<Rightarrow> Inr (Some (snd p), r'))))"

text \<open>
  \<open>RecordAccess\<close>: \<open>c2\<close> is the state after \<open>push_front(current_timestamp_++)\<close> and
  \<open>h\<close> the history of the frame at that point. For an evictable frame the maps follow
  the oldest retained timestamp: with more than \<open>k\<close> entries the old key leaves
  \<open>complete_histories_\<close>, the history is trimmed and the new oldest entry is the key;
  with exactly \<open>k\<close> the frame moves from \<open>incomplete_histories_\<close> to
  \<open>complete_histories_\<close>; with fewer it is entered in \<open>incomplete_histories_\<close>.
\<close>

definition RecordAccessM :: "LRUKReplacerM \<Rightarrow> frame_id_t \<Rightarrow> error + LRUKReplacerM" where
  "RecordAccessM r frame_id =
     (if \<not> IsValidFrameId (core r) frame_id
      then Inl (invalid_argument ''RecordAccess(): frame_id is invalid'')
      else if \<not> in_bounds (core r) frame_id then Inl undefined_behaviour
      else
        let f = nat frame_id;
            c = core r;
            c1 = (if \<not> allocated c ! f
                  then c\<lparr>allocated := (allocated c)[f := True],
                         evictable := (evictable c)[f := False]\<rparr>
                  else c);
            h = current_timestamp c1 # (history c1 ! f);
            c2 = c1\<lparr>history := (history c1)[f := h],
                    current_timestamp := current_timestamp c1 + 1\<rparr>
        in if evictable c2 ! f then
             (if length h > k c2 then
                (if butlast h = [] then Inl undefined_behaviour
                 else Inr (r\<lparr>complete_histories :=
                               map_set (map_erase (complete_histories r) (last h))
                                 (last (butlast h)) frame_id,
                             core := c2\<lparr>history := (history c2)[f := butlast h]\<rparr>\<rparr>))
              else if length h = k c2 then
                Inr (r\<lparr>incomplete_histories :=
                          (if length h > 1 then map_erase (incomplete_histories r) (last h)
                           else incomplete_histories r),
                        complete_histories := map_set (complete_histories r) (last h) frame_id,
                        core := c2\<rparr>)
              else
                Inr (r\<lparr>incomplete_histories :=
                          map_set (incomplete_histories r) (last h) frame_id,
                        core := c2\<rparr>))
           else
             (if length h > k c2
              then Inr (r\<lparr>core := c2\<lparr>history := (history c2)[f := butlast h]\<rparr>\<rparr>)
              else Inr (r\<lparr>core := c2\<rparr>)))"

text \<open>
  \<open>SetEvictable\<close>: a frame that becomes evictable is entered under its oldest
  timestamp, in \<open>complete_histories_\<close> when it has \<open>k\<close> entries and in
  \<open>incomplete_histories_\<close> otherwise; a frame that stops being evictable is erased from
  both. Only these two branches call \<open>back()\<close>.
\<close>

definition SetEvictableM :: "LRUKReplacerM \<Rightarrow> frame_id_t \<Rightarrow> bool \<Rightarrow> error + LRUKReplacerM" where
  "SetEvictableM r frame_id set_evictable =
     (if \<not> IsValidFrameId (core r) frame_id
      then Inl (invalid_argument ''SetEvictable(): frame_id is invalid'')
      else if \<not> in_bounds (core r) frame_id then Inl undefined_behaviour
      else
        let f = nat frame_id; c = core r in
        if \<not> allocated c ! f then Inr r
        else if evictable c ! f \<noteq> set_evictable \<and> history c ! f = []
        then Inl undefined_behaviour
        else
          let key = last (history c ! f);
              r1 = (if \<not> evictable c ! f \<and> set_evictable
                    then (if length (history c ! f) = k c
                          then r\<lparr>complete_histories :=
                                   map_set (complete_histories r) key frame_id,
                                 core := c\<lparr>curr_size := curr_size c + 1\<rparr>\<rparr>
                          else r\<lparr>incomplete_histories :=
                                   map_set (incomplete_histories r) key frame_id,
                                 core := c\<lparr>curr_size := curr_size c + 1\<rparr>\<rparr>)
                    else r);
              r2 = (if evictable c ! f \<and> \<not> set_evictable
                    then r1\<lparr>complete_histories := map_erase (complete_histories r1) key,
                            incomplete_histories := map_erase (incomplete_histories r1) key,
                            core := (core r1)\<lparr>curr_size := size_t_sub (curr_size (core r1)) 1\<rparr>\<rparr>
                    else r1)
          in Inr (r2\<lparr>core := (core r2)\<lparr>evictable := (evictable (core r2))[f := set_evictable]\<rparr>\<rparr>))"

definition RemoveM :: "LRUKReplacerM \<Rightarrow> frame_id_t \<Rightarrow> error + LRUKReplacerM" where
  "RemoveM r frame_id =
     (if \<not> IsValidFrameId (core r) frame_id then Inr r
      else if \<not> in_bounds (core r) frame_id then Inl undefined_behaviour
      else if \<not> allocated (core r) ! nat frame_id then Inr r
      else if \<not> evictable (core r) ! nat frame_id
      then Inl (invalid_argument ''Remove(): Frame is not evictable'')
      else RemoveInternalM r frame_id)"

text \<open>
  What the maps hold in the states the operations produce. \<open>keyed c True\<close> is the set
  of entries \<open>(oldest timestamp, frame)\<close> of the evictable frames with \<open>k\<close> recorded
  accesses, \<open>keyed c False\<close> that of the evictable frames with fewer.
\<close>

definition keyed :: "LRUKReplacer \<Rightarrow> bool \<Rightarrow> (nat \<times> frame_id_t) set" where
  "keyed c complete =
     set (map (\<lambda>i. (last (history c ! i), int i))
            (filter (\<lambda>i. (length (history c ! i) = k c) = complete) (evictable_frames c)))"

text \<open>No timestamp is in the histories of two frames: each access draws a fresh one.\<close>

definition stamps_disjoint :: "LRUKReplacer \<Rightarrow> bool" where
  "stamps_disjoint c =
     (\<forall>i \<in> set [0..<replacer_size c]. \<forall>j \<in> set [0..<replacer_size c].
        i \<noteq> j \<longrightarrow> set (history c ! i) \<inter> set (history c ! j) = {})"

definition wf_replacerM :: "LRUKReplacerM \<Rightarrow> bool" where
  "wf_replacerM r =
     (wf_replacer (core r) \<and> stamps_disjoint (core r) \<and>
      sorted_wrt (<) (map fst (complete_histories r)) \<and>
      sorted_wrt (<) (map fst (incomplete_histories r)) \<and>
      set (complete_histories r) = keyed (core r) True \<and>
      set (incomplete_histories r) = keyed (core r) False)"

text \<open>
  For the proofs: the entry of one frame \<open>f\<close>, the entries of the other frames, and two
  states differing at frame \<open>f\<close> only.
\<close>

definition own :: "LRUKReplacer \<Rightarrow> nat \<Rightarrow> bool \<Rightarrow> (nat \<times> frame_id_t) set" where
  "own c f complete =
     (if ev c f \<and> (length (history c ! f) = k c) = complete
      then {(last (history c ! f), int f)} else {})"

definition others :: "LRUKReplacer \<Rightarrow> nat \<Rightarrow> bool \<Rightarrow> (nat \<times> frame_id_t) set" where
  "others c f complete =
     {(last (history c ! i), int i) | i. i < replacer_size c \<and> i \<noteq> f \<and> ev c i \<and>
        (length (history c ! i) = k c) = complete}"

definition agree_off :: "LRUKReplacer \<Rightarrow> LRUKReplacer \<Rightarrow> nat \<Rightarrow> bool" where
  "agree_off c' c f =
     (replacer_size c' = replacer_size c \<and> k c' = k c \<and>
      (\<forall>i < replacer_size c. i \<noteq> f \<longrightarrow>
         history c' ! i = history c ! i \<and> allocated c' ! i = allocated c ! i \<and>
         evictable c' ! i = evictable c ! i))"

text \<open>
  The state of \<open>example_replacer\<close> in this variant: frames 1 and 4 have two recorded
  accesses and are keyed by timestamps 0 and 3, frame 2 has one and is keyed by 1.
\<close>

definition example_replacerM :: LRUKReplacerM where
  "example_replacerM =
     \<lparr>core = example_replacer, complete_histories = [(0, 1), (3, 4)],
      incomplete_histories = [(1, 2)]\<rparr>"

section \<open>Buffer pool manager (\<open>buffer_pool_manager_instance.cpp\<close>)\<close>

text \<open>
  A \<open>Page\<close> object of the pool: contents and metadata of one frame. The contents are of
  an arbitrary type with a zero (\<open>ResetMemory\<close> writes zeros).
\<close>

record 'd Page =
  data :: 'd
  page_id :: page_id_t
  pin_count :: int
  is_dirty :: bool

text \<open>
  The page table is an \<open>ExtendibleHashTable<page_id_t, frame_id_t>\<close> that the pool
  uses through \<open>Find\<close>, \<open>Insert\<close> and \<open>Remove\<close> only; here it is the finite map these
  three maintain. \<open>disk\<close> is what the disk manager holds for every page id. The front of
  \<open>free_list\<close> is the head of the list.
\<close>

record 'd BufferPoolManagerInstance =
  pool_size :: nat
  pages :: "'d Page list"
  page_table :: "page_id_t \<rightharpoonup> frame_id_t"
  replacer :: LRUKReplacer
  free_list :: "frame_id_t list"
  next_page_id :: page_id_t
  disk :: "page_id_t \<Rightarrow> 'd"

definition BufferPoolManagerInstance_new ::
  "nat \<Rightarrow> nat \<Rightarrow> (page_id_t \<Rightarrow> 'd) \<Rightarrow> ('d::zero) BufferPoolManagerInstance" where
  "BufferPoolManagerInstance_new n replacer_k dsk =
     \<lparr>pool_size = n,
      pages = replicate n \<lparr>data = 0, page_id = INVALID_PAGE_ID, pin_count = 0, is_dirty = False\<rparr>,
      page_table = Map.empty,
      replacer = LRUKReplacer_new n replacer_k,
      free_list = map int [0..<n],
      next_page_id = 0,
      disk = dsk\<rparr>"

text \<open>\<open>AllocatePage\<close>: \<open>return next_page_id++\<close>.\<close>

definition AllocatePage ::
  "'d BufferPoolManagerInstance \<Rightarrow> page_id_t \<times> 'd BufferPoolManagerInstance" where
  "AllocatePage s = (next_page_id s, s\<lparr>next_page_id := next_page_id s + 1\<rparr>)"

text \<open>
  Modelled from the spec: \<open>DeallocatePage\<close> is defined in a header that is not among the
  sources. The specification says that \<open>DeletePage\<close> gives the page id back to the
  allocator; the allocator of the sources is the counter of \<open>AllocatePage\<close>, which has
  nothing to take an id back into, so the model leaves the state as it is.
\<close>

definition DeallocatePage ::
  "'d BufferPoolManagerInstance \<Rightarrow> page_id_t \<Rightarrow> 'd BufferPoolManagerInstance" where
  "DeallocatePage s pid = s"

definition frame_in_pool :: "'d BufferPoolManagerInstance \<Rightarrow> frame_id_t \<Rightarrow> bool" where
  "frame_in_pool s f = (0 \<le> f \<and> nat f < length (pages s))"

text \<open>
  The part that \<open>NewPgImp\<close> and \<open>FetchPgImp\<close> share: take the front of the free list,
  or else evict a frame and drop its page from the page table. \<open>None\<close> is the
  \<open>return nullptr\<close> of the callers. The source ignores the result of \<open>Evict\<close>; when
  \<open>Evict\<close> returns \<open>false\<close> it leaves \<open>frame_id\<close> uninitialised.
\<close>

definition acquire_frame ::
  "'d BufferPoolManagerInstance \<Rightarrow> error + (frame_id_t option \<times> 'd BufferPoolManagerInstance)" where
  "acquire_frame s =
     (case free_list s of
        f # rest \<Rightarrow> Inr (Some f, s\<lparr>free_list := rest\<rparr>)
      | [] \<Rightarrow>
          if Size (replacer s) > 0 then
            (case Evict (replacer s) of
               Inl e \<Rightarrow> Inl e
             | Inr (None, _) \<Rightarrow> Inl undefined_behaviour
             | Inr (Some f, rep) \<Rightarrow>
                 if \<not> frame_in_pool s f then Inl undefined_behaviour
                 else Inr (Some f, s\<lparr>replacer := rep,
                                      page_table := (page_table s)(page_id (pages s ! nat f) := None)\<rparr>))
          else Inr (None, s))"

text \<open>
  \<open>RecordAccess(frame_id); SetEvictable(frame_id, false); page_table->Insert(pid, frame_id)\<close>.
\<close>

definition pin_frame ::
  "'d BufferPoolManagerInstance \<Rightarrow> frame_id_t \<Rightarrow> page_id_t \<Rightarrow> error + 'd BufferPoolManagerInstance" where
  "pin_frame s f pid =
     (case RecordAccess (replacer s) f of
        Inl e \<Rightarrow> Inl e
      | Inr rep1 \<Rightarrow>
          (case SetEvictable rep1 f False of
             Inl e \<Rightarrow> Inl e
           | Inr rep2 \<Rightarrow> Inr (s\<lparr>replacer := rep2, page_table := (page_table s)(pid \<mapsto> f)\<rparr>)))"

text \<open>Writing the frame's old page back when it is dirty.\<close>

definition write_back :: "'d BufferPoolManagerInstance \<Rightarrow> nat \<Rightarrow> 'd BufferPoolManagerInstance" where
  "write_back s f =
     (if is_dirty (pages s ! f)
      then s\<lparr>disk := (disk s)(page_id (pages s ! f) := data (pages s ! f))\<rparr>
      else s)"

text \<open>
  \<open>NewPgImp\<close> returns the value written to \<open>*page_id\<close> together with the frame of the
  returned \<open>Page\<close> pointer, \<open>None\<close> for \<open>nullptr\<close>. The page id is allocated before
  the frame is looked for.
\<close>

definition NewPgImp ::
  "('d::zero) BufferPoolManagerInstance \<Rightarrow>
     error + ((page_id_t \<times> frame_id_t option) \<times> 'd BufferPoolManagerInstance)" where
  "NewPgImp s =
     (let (pid, s1) = AllocatePage s in
      case acquire_frame s1 of
        Inl e \<Rightarrow> Inl e
      | Inr (None, s2) \<Rightarrow> Inr ((pid, None), s2)
      | Inr (Some f, s2) \<Rightarrow>
          (case pin_frame s2 f pid of
             Inl e \<Rightarrow> Inl e
           | Inr s3 \<Rightarrow>
               if \<not> frame_in_pool s3 f then Inl undefined_behaviour
               else
                 let s4 = write_back s3 (nat f) in
                 Inr ((pid, Some f),
                      s4\<lparr>pages := (pages s4)[nat f :=
                            \<lparr>data = 0, page_id = pid, pin_count = 1, is_dirty = False\<rparr>]\<rparr>)))"

definition FetchPgImp ::
  "'d BufferPoolManagerInstance \<Rightarrow> page_id_t \<Rightarrow>
     error + (frame_id_t option \<times> 'd BufferPoolManagerInstance)" where
  "FetchPgImp s pid =
     (case page_table s pid of
        Some f \<Rightarrow>
          (case RecordAccess (replacer s) f of
             Inl e \<Rightarrow> Inl e
           | Inr rep1 \<Rightarrow>
               if \<not> frame_in_pool s f then Inl undefined_behaviour
               else
                 (case (if pin_count (pages s ! nat f) = 0 then SetEvictable rep1 f False
                        else Inr rep1) of
                    Inl e \<Rightarrow> Inl e
                  | Inr rep2 \<Rightarrow>
                      Inr (Some f,
                           s\<lparr>replacer := rep2,
                             pages := (pages s)[nat f :=
                               (pages s ! nat f)\<lparr>pin_count := pin_count (pages s ! nat f) + 1\<rparr>]\<rparr>)))
      | None \<Rightarrow>
          (case acquire_frame s of
             Inl e \<Rightarrow> Inl e
           | Inr (None, s2) \<Rightarrow> Inr (None, s2)
           | Inr (Some f, s2) \<Rightarrow>
               (case pin_frame s2 f pid of
                  Inl e \<Rightarrow> Inl e
                | Inr s3 \<Rightarrow>
                    if \<not> frame_in_pool s3 f then Inl undefined_behaviour
                    else
                      let s4 = write_back s3 (nat f) in
                      Inr (Some f,
                           s4\<lparr>pages := (pages s4)[nat f :=
                                 \<lparr>data = disk s4 pid, page_id = pid, pin_count = 1,
                                  is_dirty = False\<rparr>]\<rparr>))))"

definition UnpinPgImp ::
  "'d BufferPoolManagerInstance \<Rightarrow> page_id_t \<Rightarrow> bool \<Rightarrow>
     error + (bool \<times> 'd BufferPoolManagerInstance)" where
  "UnpinPgImp s pid dirty =
     (case page_table s pid of
        None \<Rightarrow> Inr (False, s)
      | Some f \<Rightarrow>
          if \<not> frame_in_pool s f then Inl undefined_behaviour
          else if pin_count (pages s ! nat f) = 0 then Inr (False, s)
          else
            let p1 = (pages s ! nat f)\<lparr>pin_count := pin_count (pages s ! nat f) - 1\<rparr> in
            (case (if pin_count p1 = 0 then SetEvictable (replacer s) f True
                   else Inr (replacer s)) of
               Inl e \<Rightarrow> Inl e
             | Inr rep \<Rightarrow>
                 let p2 = (if \<not> is_dirty p1 then p1\<lparr>is_dirty := dirty\<rparr> else p1) in
                 Inr (True, s\<lparr>replacer := rep, pages := (pages s)[nat f := p2]\<rparr>)))"

definition FlushPgImp ::
  "'d BufferPoolManagerInstance \<Rightarrow> page_id_t \<Rightarrow>
     error + (bool \<times> 'd BufferPoolManagerInstance)" where
  "FlushPgImp s pid =
     (case page_table s pid of
        None \<Rightarrow> Inr (False, s)
      | Some f \<Rightarrow>
          if \<not> frame_in_pool s f then Inl undefined_behaviour
          else Inr (True, s\<lparr>disk := (disk s)(pid := data (pages s ! nat f)),
                            pages := (pages s)[nat f := (pages s ! nat f)\<lparr>is_dirty := False\<rparr>]\<rparr>))"

definition DeletePgImp ::
  "('d::zero) BufferPoolManagerInstance \<Rightarrow> page_id_t \<Rightarrow>
     error + (bool \<times> 'd BufferPoolManagerInstance)" where
  "DeletePgImp s pid =
     (case page_table s pid of
        None \<Rightarrow> Inr (True, s)
      | Some f \<Rightarrow>
          if \<not> frame_in_pool s f then Inl undefined_behaviour
          else if pin_count (pages s ! nat f) \<noteq> 0 then Inr (False, s)
          else
            (case Remove (replacer s) f of
               Inl e \<Rightarrow> Inl e
             | Inr rep \<Rightarrow>
                 let s1 = DeallocatePage
                            (s\<lparr>page_table := (page_table s)(pid := None), replacer := rep,
                               free_list := free_list s @ [f]\<rparr>) pid
                 in Inr (True,
                         s1\<lparr>pages := (pages s1)[nat f :=
                               \<lparr>data = 0, page_id = INVALID_PAGE_ID, pin_count = 0,
                                is_dirty = False\<rparr>]\<rparr>)))"

text \<open>
  A pool with a single frame and \<open>k = 2\<close> over a disk of zero pages, and the states it goes
  through: \<open>pool1\<close> after the first \<open>NewPage\<close> (page 0 pinned in frame 0), \<open>pool3\<close> after
  a second, failed \<open>NewPage\<close> and \<open>UnpinPage(0, true)\<close>, \<open>pool4\<close> after a third
  \<open>NewPage\<close>.
\<close>

definition pool0 :: "nat BufferPoolManagerInstance" where
  "pool0 = BufferPoolManagerInstance_new 1 2 (\<lambda>_. 0)"

definition pool1 :: "nat BufferPoolManagerInstance" where
  "pool1 =
     \<lparr>pool_size = 1,
      pages = [\<lparr>data = 0, page_id = 0, pin_count = 1, is_dirty = False\<rparr>],
      page_table = [0 \<mapsto> 0],
      replacer = \<lparr>history = [[0]], allocated = [True], evictable = [False],
                  current_timestamp = 1, curr_size = 0, replacer_size = 1, k = 2\<rparr>,
      free_list = [],
      next_page_id = 1,
      disk = (\<lambda>_. 0)\<rparr>"

definition pool3 :: "nat BufferPoolManagerInstance" where
  "pool3 =
     \<lparr>pool_size = 1,
      pages = [\<lparr>data = 0, page_id = 0, pin_count = 0, is_dirty = True\<rparr>],
      page_table = [0 \<mapsto> 0],
      replacer = \<lparr>history = [[0]], allocated = [True], evictable = [True],
                  current_timestamp = 1, curr_size = 1, replacer_size = 1, k = 2\<rparr>,
      free_list = [],
      next_page_id = 2,
      disk = (\<lambda>_. 0)\<rparr>"

definition pool4 :: "nat BufferPoolManagerInstance" where
  "pool4 =
    \<lparr>pool_size = 1,
      pages = [\<lparr>data = 0, page_id = 2, pin_count = 1, is_dirty = False\<rparr>],
      page_table = [2 \<mapsto> 0],
      replacer = \<lparr>history = [[1]], allocated = [True], evictable = [False],
                  current_timestamp = 2, curr_size = 0, replacer_size = 1, k = 2\<rparr>,
      free_list = [],
      next_page_id = 3,
      disk = (\<lambda>_. 0)\<rparr>"

section \<open>B+ tree pages as the tree uses them\<close>

text \<open>
  Modelled from the spec: the page header class (\<open>b_plus_tree_page.cpp\<close>, with
  \<open>IsLeafPage\<close>, \<open>GetSize\<close>, \<open>SetSize\<close>, \<open>GetMinSize\<close>, \<open>GetPageId\<close> and the
  other accessors) is not among the sources. The specification gives the header fields
  \<open>page_type\<close>, \<open>size\<close>, \<open>max_size\<close>, \<open>parent_page_id\<close>, \<open>page_id\<close> and, for a
  leaf, \<open>next_page_id\<close>, and \<open>min_size = \<lceil>max_size / 2\<rceil>\<close> for both kinds of page.

  Leaf and internal pages overlay the same bytes of a frame: a header followed by an
  array of (key, value) pairs, the value being a record id in a leaf and a child page id
  in an internal page. Keys and values are integers here, so one record serves both.
  As for the leaf page above, \<open>array\<close> keeps the live slots and \<open>GetSize\<close> is its
  length; \<open>SetSize(n)\<close> with \<open>n\<close> not above the size keeps the first \<open>n\<close> slots.
\<close>

datatype IndexPageType = INVALID_INDEX_PAGE | LEAF_PAGE | INTERNAL_PAGE

record BPlusTreePage =
  page_type :: IndexPageType
  max_size :: int
  parent_page_id :: page_id_t
  bt_page_id :: page_id_t
  bt_next_page_id :: page_id_t
  array :: "(int \<times> int) list"

definition IsLeafPage :: "BPlusTreePage \<Rightarrow> bool" where
  "IsLeafPage p = (page_type p = LEAF_PAGE)"

definition GetSize :: "BPlusTreePage \<Rightarrow> int" where
  "GetSize p = int (length (array p))"

definition GetMinSize :: "BPlusTreePage \<Rightarrow> int" where
  "GetMinSize p = (max_size p + 1) div 2"

definition SetSize :: "BPlusTreePage \<Rightarrow> int \<Rightarrow> BPlusTreePage" where
  "SetSize p n = p\<lparr>array := take (nat n) (array p)\<rparr>"

text \<open>
  The memory of a page that \<open>NewPage\<close> has just handed out: all bytes zero.
\<close>

definition zero_page :: BPlusTreePage where
  "zero_page = \<lparr>page_type = INVALID_INDEX_PAGE, max_size = 0, parent_page_id = 0,
                 bt_page_id = 0, bt_next_page_id = 0, array = []\<rparr>"

text \<open>
  \<open>Init\<close> of a leaf page (\<open>SetSize(0)\<close>) and of an internal page (\<open>SetSize(1)\<close>). The
  tree calls them on fresh pages only, so the one live slot of a new internal page holds
  the zero bytes \<open>NewPage\<close> left there.
\<close>

definition leaf_Init :: "page_id_t \<Rightarrow> page_id_t \<Rightarrow> int \<Rightarrow> BPlusTreePage" where
  "leaf_Init pid parent_id max_sz =
     \<lparr>page_type = LEAF_PAGE, max_size = max_sz, parent_page_id = parent_id,
      bt_page_id = pid, bt_next_page_id = INVALID_PAGE_ID, array = []\<rparr>"

definition internal_Init :: "page_id_t \<Rightarrow> page_id_t \<Rightarrow> int \<Rightarrow> BPlusTreePage" where
  "internal_Init pid parent_id max_sz =
     \<lparr>page_type = INTERNAL_PAGE, max_size = max_sz, parent_page_id = parent_id,
      bt_page_id = pid, bt_next_page_id = 0, array = [(0, 0)]\<rparr>"

section \<open>B+ tree (\<open>b_plus_tree.cpp\<close>)\<close>

text \<open>
  Errors of a run of the tree: \<open>out_of_fuel\<close> is the model's bound on the depth of the
  recursive descent; \<open>page_not_resident pid\<close> is a \<open>FetchPage(pid)\<close> or a page pointer
  for a page that is not in the pool (the source would read the page from disk, whose
  contents are not modelled); \<open>bad_slot\<close> is an access to \<open>NodeAt(i)\<close> outside the live
  slots; \<open>diverges\<close> is a loop of the source that does not end.
\<close>

datatype tree_error = out_of_fuel | page_not_resident page_id_t | bad_slot | diverges

fun bindE :: "tree_error + 'a \<Rightarrow> ('a \<Rightarrow> tree_error + 'b) \<Rightarrow> tree_error + 'b" where
  "bindE (Inl e) f = Inl e"
| "bindE (Inr x) f = f x"

text \<open>
  The tree sees the buffer pool through \<open>NewPage\<close>, \<open>FetchPage\<close>, \<open>UnpinPage\<close> and
  \<open>DeletePage\<close>. The tree model runs on a pool with a frame for every page it ever
  allocates, so that no page is evicted: \<open>frames\<close> lists the resident pages with
  their contents and pin counts in the order of their allocation, and \<open>next_pid\<close> is the
  allocator. On such a pool \<open>NewPage\<close> returns a zeroed page with pin count 1,
  \<open>FetchPage\<close> of a resident page adds a pin, \<open>UnpinPage\<close> takes one away unless the
  count is zero, and \<open>DeletePage\<close> drops a resident page whose pin count is zero and does
  nothing otherwise (\<open>NewPgImp\<close>, \<open>FetchPgImp\<close>, \<open>UnpinPgImp\<close>, \<open>DeletePgImp\<close> above).
  The header page, which \<open>UpdateRootPageId\<close> alone reads and writes, is left out.
\<close>

record BPlusTree =
  root_page_id :: page_id_t
  leaf_max_size :: int
  internal_max_size :: int
  frames :: "(page_id_t \<times> BPlusTreePage \<times> nat) list"
  next_pid :: page_id_t

definition BPlusTree_new :: "int \<Rightarrow> int \<Rightarrow> page_id_t \<Rightarrow> BPlusTree" where
  "BPlusTree_new leaf_max internal_max first_pid =
     \<lparr>root_page_id = INVALID_PAGE_ID, leaf_max_size = leaf_max,
      internal_max_size = internal_max, frames = [], next_pid = first_pid\<rparr>"

definition IsEmpty :: "BPlusTree \<Rightarrow> bool" where
  "IsEmpty t = (root_page_id t = INVALID_PAGE_ID)"

definition NewPage :: "BPlusTree \<Rightarrow> page_id_t \<times> BPlusTree" where
  "NewPage t =
     (next_pid t,
      t\<lparr>frames := AList.update (next_pid t) (zero_page, 1) (frames t),
        next_pid := next_pid t + 1\<rparr>)"

definition FetchPage :: "BPlusTree \<Rightarrow> page_id_t \<Rightarrow> tree_error + BPlusTree" where
  "FetchPage t pid =
     (case map_of (frames t) pid of
        None \<Rightarrow> Inl (page_not_resident pid)
      | Some (p, pins) \<Rightarrow> Inr (t\<lparr>frames := AList.update pid (p, pins + 1) (frames t)\<rparr>))"

definition UnpinPage :: "BPlusTree \<Rightarrow> page_id_t \<Rightarrow> bool \<Rightarrow> BPlusTree" where
  "UnpinPage t pid dirty =
     (case map_of (frames t) pid of
        None \<Rightarrow> t
      | Some (p, pins) \<Rightarrow>
          if pins = 0 then t else t\<lparr>frames := AList.update pid (p, pins - 1) (frames t)\<rparr>)"

definition DeletePage :: "BPlusTree \<Rightarrow> page_id_t \<Rightarrow> BPlusTree" where
  "DeletePage t pid =
     (case map_of (frames t) pid of
        None \<Rightarrow> t
      | Some (p, pins) \<Rightarrow>
          if pins \<noteq> 0 then t else t\<lparr>frames := AList.delete pid (frames t)\<rparr>)"

text \<open>Reading and writing a page through a pointer into its frame.\<close>

definition get_page :: "BPlusTree \<Rightarrow> page_id_t \<Rightarrow> tree_error + BPlusTreePage" where
  "get_page t pid =
     (case map_of (frames t) pid of
        None \<Rightarrow> Inl (page_not_resident pid)
      | Some (p, pins) \<Rightarrow> Inr p)"

definition put_page :: "BPlusTree \<Rightarrow> page_id_t \<Rightarrow> BPlusTreePage \<Rightarrow> BPlusTree" where
  "put_page t pid p =
     (case map_of (frames t) pid of
        None \<Rightarrow> t
      | Some (q, pins) \<Rightarrow> t\<lparr>frames := AList.update pid (p, pins) (frames t)\<rparr>)"

definition upd_page ::
  "BPlusTree \<Rightarrow> page_id_t \<Rightarrow> (BPlusTreePage \<Rightarrow> BPlusTreePage) \<Rightarrow> tree_error + BPlusTree" where
  "upd_page t pid f = bindE (get_page t pid) (\<lambda>p. Inr (put_page t pid (f p)))"

text \<open>\<open>NodeAt(i)\<close> read and written inside the live slots.\<close>

definition NodeAt :: "BPlusTreePage \<Rightarrow> int \<Rightarrow> tree_error + (int \<times> int)" where
  "NodeAt p i = (if 0 \<le> i \<and> i < GetSize p then Inr (array p ! nat i) else Inl bad_slot)"

definition SetKeyAt :: "BPlusTreePage \<Rightarrow> int \<Rightarrow> int \<Rightarrow> tree_error + BPlusTreePage" where
  "SetKeyAt p i key =
     (if 0 \<le> i \<and> i < GetSize p
      then Inr (p\<lparr>array := (array p)[nat i := (key, snd (array p ! nat i))]\<rparr>)
      else Inl bad_slot)"

text \<open>
  \<open>InsertIntoLeaf\<close> is the same code as the leaf page's \<open>Insert\<close>.
\<close>

definition InsertIntoLeaf :: "BPlusTreePage \<Rightarrow> int \<Rightarrow> int \<Rightarrow> bool \<times> BPlusTreePage" where
  "InsertIntoLeaf p key val =
     (case leaf_Insert_index (array p) key 0 of
        None \<Rightarrow> (False, p)
      | Some index \<Rightarrow>
          (True, p\<lparr>array := take index (array p) @ [(key, val)] @ drop index (array p)\<rparr>))"

text \<open>\<open>LowerBoundLeaf\<close> returns a pointer to a slot, or \<open>nullptr\<close> (\<open>None\<close>).\<close>

definition LowerBoundLeaf :: "BPlusTreePage \<Rightarrow> int \<Rightarrow> (int \<times> int) option" where
  "LowerBoundLeaf p key =
     (let i = leaf_LowerBound_loop (array p) key (length (array p)) in
      if i = -1 then None else Some (array p ! nat i))"

text \<open>
  The loop \<open>for (index = GetSize() - 1; index >= 1; index--)\<close> of \<open>InsertIntoInternal\<close>
  and \<open>LowerBoundInternal\<close>, leaving at the first slot whose key is not above \<open>key\<close>;
  \<open>internal_index_loop arr key i\<close> is the loop at \<open>index = i\<close>.
\<close>

fun internal_index_loop :: "(int \<times> int) list \<Rightarrow> int \<Rightarrow> nat \<Rightarrow> nat" where
  "internal_index_loop arr key 0 = 0"
| "internal_index_loop arr key (Suc i) =
     (if comparator key (fst (arr ! Suc i)) \<ge> 0 then Suc i
      else internal_index_loop arr key i)"

definition internal_index :: "BPlusTreePage \<Rightarrow> int \<Rightarrow> int" where
  "internal_index p key =
     (if array p = [] then -1
      else int (internal_index_loop (array p) key (length (array p) - 1)))"

definition InsertIntoInternal :: "BPlusTreePage \<Rightarrow> int \<Rightarrow> page_id_t \<Rightarrow> BPlusTreePage" where
  "InsertIntoInternal p key child_page_id =
     (let at = nat (internal_index p key + 1) in
      p\<lparr>array := take at (array p) @ [(key, child_page_id)] @ drop at (array p)\<rparr>)"

definition LowerBoundInternal :: "BPlusTreePage \<Rightarrow> int \<Rightarrow> tree_error + (int \<times> int)" where
  "LowerBoundInternal p key = NodeAt p (internal_index p key)"

definition IsOverFlowed :: "BPlusTreePage \<Rightarrow> bool" where
  "IsOverFlowed p =
     ((IsLeafPage p \<and> GetSize p = max_size p) \<or>
      (\<not> IsLeafPage p \<and> GetSize p = max_size p + 1))"

definition IsUnderFlowed :: "BPlusTreePage \<Rightarrow> bool" where
  "IsUnderFlowed p = (GetSize p < GetMinSize p)"

text \<open>
  \<open>RemoveFromLeaf\<close>: the first slot with an equal key, from the left; \<open>None\<close> when the
  loop reaches \<open>GetSize()\<close>.
\<close>

fun find_key :: "(int \<times> int) list \<Rightarrow> int \<Rightarrow> nat \<Rightarrow> nat option" where
  "find_key [] key i = None"
| "find_key (x # xs) key i =
     (if comparator key (fst x) = 0 then Some i else find_key xs key (Suc i))"

definition RemoveFromLeaf :: "BPlusTreePage \<Rightarrow> int \<Rightarrow> bool \<times> BPlusTreePage" where
  "RemoveFromLeaf p key =
     (case find_key (array p) key 0 of
        None \<Rightarrow> (False, p)
      | Some index \<Rightarrow> (True, p\<lparr>array := take index (array p) @ drop (Suc index) (array p)\<rparr>))"

section \<open>B+ tree operations\<close>

text \<open>
  The recursive functions of the tree descend from a page to one of its children. Nothing
  in the code bounds the descent (a page could name itself as its child), so the model
  gives them a fuel argument that each descent uses up; \<open>out_of_fuel\<close> is the result when
  it is spent.

  A page pointer of the source is valid while the page stays in the pool; every statement
  that reads or writes through a pointer is a \<open>get_page\<close> or \<open>put_page\<close> at the page id
  the pointer was fetched for, in the order of the source, so that two pointers to the same
  page see each other's writes.
\<close>

fun GetValueInternal ::
  "nat \<Rightarrow> BPlusTree \<Rightarrow> page_id_t \<Rightarrow> int \<Rightarrow> int list \<Rightarrow>
     tree_error + ((bool \<times> int list) \<times> BPlusTree)" where
  "GetValueInternal 0 t pid key result = Inl out_of_fuel"
| "GetValueInternal (Suc n) t pid key result =
     bindE (FetchPage t pid) (\<lambda>t1.
     bindE (get_page t1 pid) (\<lambda>cur.
       if IsLeafPage cur then
         (case LowerBoundLeaf cur key of
            None \<Rightarrow> Inr ((False, result), UnpinPage t1 pid False)
          | Some node \<Rightarrow>
              if comparator key (fst node) = 0
              then Inr ((True, result @ [snd node]), UnpinPage t1 pid False)
              else Inr ((False, result), UnpinPage t1 pid False))
       else
         bindE (LowerBoundInternal cur key) (\<lambda>node.
           GetValueInternal n (UnpinPage t1 pid False) (snd node) key result)))"

definition GetValue ::
  "nat \<Rightarrow> BPlusTree \<Rightarrow> int \<Rightarrow> int list \<Rightarrow> tree_error + ((bool \<times> int list) \<times> BPlusTree)" where
  "GetValue fuel t key result =
     (if IsEmpty t then Inr ((False, result), t)
      else GetValueInternal fuel t (root_page_id t) key result)"

text \<open>
  The loop of the internal split that fetches every child moved to the sibling, sets its
  parent and unpins it under the page id found in the child's own header.
\<close>

fun set_children_parent ::
  "BPlusTree \<Rightarrow> (int \<times> int) list \<Rightarrow> page_id_t \<Rightarrow> tree_error + BPlusTree" where
  "set_children_parent t [] sib = Inr t"
| "set_children_parent t (e # es) sib =
     bindE (FetchPage t (snd e)) (\<lambda>t1.
     bindE (upd_page t1 (snd e) (\<lambda>c. c\<lparr>parent_page_id := sib\<rparr>)) (\<lambda>t2.
     bindE (get_page t2 (snd e)) (\<lambda>c.
       set_children_parent (UnpinPage t2 (bt_page_id c) True) es sib)))"

text \<open>
  The key of slot 0 of the sibling, promoted into the parent. Should the sibling have
  received no slot, slot 0 of the fresh page still holds zero bytes.
\<close>

definition first_key :: "BPlusTreePage \<Rightarrow> int" where
  "first_key p = (case array p of [] \<Rightarrow> 0 | e # _ \<Rightarrow> fst e)"

text \<open>
  The part of \<open>InsertInternal\<close> below \<open>/* If I overflow, do the following: */\<close>.
\<close>

definition InsertInternal_split :: "BPlusTree \<Rightarrow> page_id_t \<Rightarrow> tree_error + BPlusTree" where
  "InsertInternal_split t pid =
     bindE (get_page t pid) (\<lambda>cur0.
     bindE (if parent_page_id cur0 = INVALID_PAGE_ID then
              (let (new_root_page_id, t1) = NewPage t;
                   t2 = put_page t1 new_root_page_id
                          ((internal_Init new_root_page_id INVALID_PAGE_ID (internal_max_size t))
                             \<lparr>array := [(0, bt_page_id cur0)]\<rparr>)
               in bindE (upd_page t2 pid (\<lambda>c. c\<lparr>parent_page_id := new_root_page_id\<rparr>)) (\<lambda>t3.
                    Inr (UnpinPage (t3\<lparr>root_page_id := new_root_page_id\<rparr>) new_root_page_id True)))
            else Inr t) (\<lambda>t4.
     bindE (get_page t4 pid) (\<lambda>cur.
     let parent_id = parent_page_id cur in
     bindE (FetchPage t4 parent_id) (\<lambda>t5.
     let (sibling_page_id, t6) = NewPage t5 in
     bindE (if IsLeafPage cur then
              (let sibling = (leaf_Init sibling_page_id parent_id (leaf_max_size t))
                               \<lparr>array := drop (nat (GetMinSize cur)) (array cur)\<rparr>;
                   t7 = put_page (put_page t6 sibling_page_id sibling) pid
                          (SetSize cur (GetMinSize cur))
               in bindE (upd_page t7 parent_id
                           (\<lambda>p. InsertIntoInternal p (first_key sibling) (bt_page_id sibling))) (\<lambda>t8.
                  upd_page t8 pid (\<lambda>c. c\<lparr>bt_next_page_id := bt_page_id sibling\<rparr>)))
            else
              (let sibling = (internal_Init sibling_page_id parent_id (internal_max_size t))
                               \<lparr>array := drop (nat (GetSize cur div 2)) (array cur)\<rparr>;
                   t7 = put_page (put_page t6 sibling_page_id sibling) pid
                          (SetSize cur (GetSize cur div 2))
               in bindE (set_children_parent t7 (array sibling) (bt_page_id sibling)) (\<lambda>t8.
                  upd_page t8 parent_id
                    (\<lambda>p. InsertIntoInternal p (first_key sibling) (bt_page_id sibling))))) (\<lambda>t9.
       Inr (UnpinPage (UnpinPage (UnpinPage t9 pid True) parent_id True) sibling_page_id True))))))"

fun InsertInternal ::
  "nat \<Rightarrow> BPlusTree \<Rightarrow> page_id_t \<Rightarrow> int \<Rightarrow> int \<Rightarrow> tree_error + (bool \<times> BPlusTree)" where
  "InsertInternal 0 t pid key val = Inl out_of_fuel"
| "InsertInternal (Suc n) t pid key val =
     bindE (FetchPage t pid) (\<lambda>t1.
     bindE (get_page t1 pid) (\<lambda>cur.
     bindE (if IsLeafPage cur then
              (let (is_inserted, cur') = InsertIntoLeaf cur key val
               in Inr (is_inserted, put_page t1 pid cur'))
            else
              bindE (LowerBoundInternal cur key) (\<lambda>node.
                InsertInternal n t1 (snd node) key val)) (\<lambda>(ok, t2).
       if \<not> ok then Inr (False, UnpinPage t2 pid False)
       else
         bindE (get_page t2 pid) (\<lambda>cur2.
           if \<not> IsOverFlowed cur2 then Inr (True, UnpinPage t2 pid True)
           else bindE (InsertInternal_split t2 pid) (\<lambda>t3. Inr (True, t3))))))"

definition Insert ::
  "nat \<Rightarrow> BPlusTree \<Rightarrow> int \<Rightarrow> int \<Rightarrow> tree_error + (bool \<times> BPlusTree)" where
  "Insert fuel t key val =
     (let t1 = (if root_page_id t = INVALID_PAGE_ID then
                  (let (rid, t') = NewPage t;
                       t'' = put_page t' rid (leaf_Init rid INVALID_PAGE_ID (leaf_max_size t))
                   in UnpinPage (t''\<lparr>root_page_id := rid\<rparr>) rid True)
                else t)
      in InsertInternal fuel t1 (root_page_id t1) key val)"

text \<open>
  \<open>for (i = 0; i < parent->GetSize(); i++) if (parent->NodeAt(i)->second == page_id)\<close>:
  the first slot naming \<open>page_id\<close>, and 0 when there is none.
\<close>

fun find_child :: "(int \<times> int) list \<Rightarrow> page_id_t \<Rightarrow> nat \<Rightarrow> nat option" where
  "find_child [] pid i = None"
| "find_child (x # xs) pid i = (if snd x = pid then Some i else find_child xs pid (Suc i))"

definition child_index :: "BPlusTreePage \<Rightarrow> page_id_t \<Rightarrow> int" where
  "child_index parent pid = (case find_child (array parent) pid 0 of None \<Rightarrow> 0 | Some i \<Rightarrow> int i)"

definition set_parent_key ::
  "BPlusTree \<Rightarrow> page_id_t \<Rightarrow> int \<Rightarrow> int \<Rightarrow> tree_error + BPlusTree" where
  "set_parent_key t parent_id i key =
     bindE (get_page t parent_id) (\<lambda>p.
     bindE (SetKeyAt p i key) (\<lambda>p'. Inr (put_page t parent_id p')))"

text \<open>
  After a borrow into an internal page the source fetches one child of the page and calls
  \<open>SetPageId\<close> on it with the page's id. The cast of the \<open>Page\<close> pointer without
  \<open>GetData()\<close> addresses the same bytes, the page data being the first member of \<open>Page\<close>.
\<close>

definition rewire_child :: "BPlusTree \<Rightarrow> page_id_t \<Rightarrow> page_id_t \<Rightarrow> tree_error + BPlusTree" where
  "rewire_child t pid child_page_id =
     bindE (FetchPage t child_page_id) (\<lambda>t1.
     bindE (get_page t1 pid) (\<lambda>cur.
     bindE (upd_page t1 child_page_id (\<lambda>c. c\<lparr>bt_page_id := bt_page_id cur\<rparr>)) (\<lambda>t2.
       Inr (UnpinPage t2 child_page_id True))))"

text \<open>
  \<open>/* Borrow from my left sibling if possible */\<close>. The result says whether the borrow
  took place (and \<open>RemoveInternal\<close> returned); when it did not, the left sibling keeps
  the pin of the \<open>FetchPage\<close>.
\<close>

definition borrow_left ::
  "BPlusTree \<Rightarrow> page_id_t \<Rightarrow> page_id_t \<Rightarrow> int \<Rightarrow> page_id_t \<Rightarrow> tree_error + (bool \<times> BPlusTree)" where
  "borrow_left t pid parent_id index left_id =
     bindE (FetchPage t left_id) (\<lambda>t1.
     bindE (get_page t1 left_id) (\<lambda>left.
     let left_sibling_size = GetSize left in
     if GetSize left > GetMinSize left then
       bindE (get_page t1 pid) (\<lambda>cur.
       bindE (NodeAt left (left_sibling_size - 1)) (\<lambda>e.
       bindE (if IsLeafPage cur then
                (let t2 = put_page t1 pid (snd (InsertIntoLeaf cur (fst e) (snd e)))
                 in bindE (get_page t2 pid) (\<lambda>cur'.
                    bindE (NodeAt cur' 0) (\<lambda>c0.
                      set_parent_key t2 parent_id index (fst c0))))
              else
                (let t2 = put_page t1 pid (InsertIntoInternal cur (fst e) (snd e))
                 in bindE (get_page t2 pid) (\<lambda>cur'.
                    bindE (NodeAt cur' 0) (\<lambda>c0.
                    bindE (set_parent_key t2 parent_id index (fst c0)) (\<lambda>t3.
                    bindE (get_page t3 pid) (\<lambda>cur''.
                    bindE (NodeAt cur'' 0) (\<lambda>c1.
                      rewire_child t3 pid (snd c1)))))))) (\<lambda>t4.
       bindE (upd_page t4 left_id (\<lambda>l. SetSize l (left_sibling_size - 1))) (\<lambda>t5.
         Inr (True, UnpinPage (UnpinPage (UnpinPage t5 pid True) parent_id True) left_id True)))))
     else Inr (False, t1)))"

text \<open>\<open>/* Borrow from my right sibling if possible */\<close>.\<close>

definition borrow_right ::
  "BPlusTree \<Rightarrow> page_id_t \<Rightarrow> page_id_t \<Rightarrow> int \<Rightarrow> page_id_t \<Rightarrow> tree_error + (bool \<times> BPlusTree)" where
  "borrow_right t pid parent_id index right_id =
     bindE (FetchPage t right_id) (\<lambda>t1.
     bindE (get_page t1 right_id) (\<lambda>right.
     let right_sibling_size = GetSize right in
     if GetSize right > GetMinSize right then
       bindE (get_page t1 pid) (\<lambda>cur.
       bindE (NodeAt right 0) (\<lambda>e.
       bindE (if IsLeafPage cur then
                (let t2 = put_page t1 pid (snd (InsertIntoLeaf cur (fst e) (snd e)))
                 in bindE (get_page t2 right_id) (\<lambda>right1.
                    bindE (NodeAt right1 0) (\<lambda>r0.
                    let t3 = put_page t2 right_id (snd (RemoveFromLeaf right1 (fst r0)))
                    in bindE (get_page t3 right_id) (\<lambda>right2.
                       bindE (NodeAt right2 0) (\<lambda>r1.
                         set_parent_key t3 parent_id (index + 1) (fst r1))))))
              else
                (let t2 = put_page t1 pid (InsertIntoInternal cur (fst e) (snd e))
                 in bindE (get_page t2 right_id) (\<lambda>right1.
                    let t3 = put_page t2 right_id
                               (SetSize (right1\<lparr>array := tl (array right1) @ [last (array right1)]\<rparr>)
                                  (right_sibling_size - 1))
                    in bindE (get_page t3 right_id) (\<lambda>right2.
                       bindE (NodeAt right2 0) (\<lambda>r1.
                       bindE (set_parent_key t3 parent_id (index + 1) (fst r1)) (\<lambda>t4.
                       bindE (get_page t4 pid) (\<lambda>cur'.
                       bindE (NodeAt cur' (GetSize cur' - 1)) (\<lambda>c.
                         rewire_child t4 pid (snd c))))))))) (\<lambda>t5.
         Inr (True, UnpinPage (UnpinPage (UnpinPage t5 pid True) parent_id True) right_id True))))
     else Inr (False, t1)))"

text \<open>
  The loops of the merge that insert every slot of the right page into the left page.
  When both pointers address the same page (the parent names the page in two
  neighbouring slots), the loops read the size of the page they are growing; the model
  follows them only as far as they leave the page as it is.
\<close>

definition merge_leaf :: "BPlusTreePage \<Rightarrow> BPlusTreePage \<Rightarrow> BPlusTreePage" where
  "merge_leaf left right = fold (\<lambda>e l. snd (InsertIntoLeaf l (fst e) (snd e))) (array right) left"

definition merge_internal :: "BPlusTreePage \<Rightarrow> BPlusTreePage \<Rightarrow> BPlusTreePage" where
  "merge_internal left right = fold (\<lambda>e l. InsertIntoInternal l (fst e) (snd e)) (array right) left"

text \<open>
  \<open>for (index = 1; index < parent->GetSize(); index++)\<close> looking for the slot that names
  the right page; the loop ends with \<open>index = GetSize()\<close> when no slot does.
\<close>

definition merged_index :: "BPlusTreePage \<Rightarrow> page_id_t \<Rightarrow> nat" where
  "merged_index parent right_pid =
     (case find_child (tl (array parent)) right_pid 1 of
        None \<Rightarrow> max 1 (length (array parent))
      | Some i \<Rightarrow> i)"

text \<open>
  \<open>for (i = index; i < parent->GetSize() - 1; i++)\<close> copying slot \<open>i + 1\<close> to slot \<open>i\<close>.
  The size of the parent is not changed, so its last slot stays.
\<close>

definition shift_left_from :: "(int \<times> int) list \<Rightarrow> nat \<Rightarrow> (int \<times> int) list" where
  "shift_left_from arr index =
     (if index < length arr then take index arr @ drop (Suc index) arr @ [last arr] else arr)"

text \<open>
  \<open>/* Merge with (any) one of my siblings */\<close>, in the three steps of the source:
  choosing and fetching the sibling, moving the slots, closing the gap in the parent.
\<close>

definition merge_pick ::
  "BPlusTree \<Rightarrow> page_id_t \<Rightarrow> page_id_t \<Rightarrow> int \<Rightarrow>
     tree_error + (page_id_t \<times> page_id_t \<times> BPlusTree)" where
  "merge_pick t pid parent_id index =
     bindE (get_page t parent_id) (\<lambda>parent.
       if index < GetSize parent - 1 then
         bindE (NodeAt parent (index + 1)) (\<lambda>e.
         bindE (FetchPage t (snd e)) (\<lambda>t1. Inr (pid, snd e, t1)))
       else
         bindE (NodeAt parent (index - 1)) (\<lambda>e.
         bindE (FetchPage t (snd e)) (\<lambda>t1. Inr (snd e, pid, t1))))"

definition merge_entries ::
  "BPlusTree \<Rightarrow> page_id_t \<Rightarrow> page_id_t \<Rightarrow> tree_error + BPlusTree" where
  "merge_entries t left_id right_id =
     bindE (get_page t left_id) (\<lambda>left.
     bindE (get_page t right_id) (\<lambda>right.
       if IsLeafPage left then
         (if left_id = right_id \<and> merge_leaf left right \<noteq> left then Inl diverges
          else
            bindE (get_page (put_page t left_id (merge_leaf left right)) right_id) (\<lambda>right1.
              upd_page (put_page t left_id (merge_leaf left right)) left_id
                (\<lambda>l. l\<lparr>bt_next_page_id := bt_next_page_id right1\<rparr>)))
       else
         (if left_id = right_id \<and> array right \<noteq> [] then Inl diverges
          else Inr (put_page t left_id (merge_internal left right)))))"

definition merge_parent ::
  "BPlusTree \<Rightarrow> page_id_t \<Rightarrow> page_id_t \<Rightarrow> tree_error + BPlusTree" where
  "merge_parent t parent_id right_id =
     bindE (get_page t right_id) (\<lambda>right.
       upd_page t parent_id
         (\<lambda>p. p\<lparr>array := shift_left_from (array p) (merged_index p (bt_page_id right))\<rparr>))"

definition merge_siblings ::
  "BPlusTree \<Rightarrow> page_id_t \<Rightarrow> page_id_t \<Rightarrow> int \<Rightarrow> tree_error + BPlusTree" where
  "merge_siblings t pid parent_id index =
     bindE (merge_pick t pid parent_id index) (\<lambda>(left_id, right_id, t1).
     bindE (merge_entries t1 left_id right_id) (\<lambda>t2.
     bindE (merge_parent t2 parent_id right_id) (\<lambda>t3.
       Inr (DeletePage (UnpinPage (UnpinPage (UnpinPage t3 left_id True) right_id True)
                          parent_id True) right_id))))"

text \<open>
  The part of \<open>RemoveInternal\<close> that runs for an underflowed page that is not the root:
  the attempt on the left sibling, the attempt on the right sibling, and the merge unless
  the page is the only child of its parent.
\<close>

definition try_borrow_left ::
  "BPlusTree \<Rightarrow> page_id_t \<Rightarrow> page_id_t \<Rightarrow> int \<Rightarrow> tree_error + (bool \<times> BPlusTree)" where
  "try_borrow_left t pid parent_id index =
     bindE (get_page t parent_id) (\<lambda>parent.
     bindE (if index > 0 then bindE (NodeAt parent (index - 1)) (\<lambda>e. Inr (snd e))
            else Inr INVALID_PAGE_ID) (\<lambda>left_sibling_page_id.
       if left_sibling_page_id \<noteq> INVALID_PAGE_ID
       then borrow_left t pid parent_id index left_sibling_page_id
       else Inr (False, t)))"

definition try_borrow_right ::
  "BPlusTree \<Rightarrow> page_id_t \<Rightarrow> page_id_t \<Rightarrow> int \<Rightarrow> tree_error + (bool \<times> BPlusTree)" where
  "try_borrow_right t pid parent_id index =
     bindE (get_page t parent_id) (\<lambda>parent.
     bindE (if index < GetSize parent - 1
            then bindE (NodeAt parent (index + 1)) (\<lambda>e. Inr (snd e))
            else Inr INVALID_PAGE_ID) (\<lambda>right_sibling_page_id.
       if right_sibling_page_id \<noteq> INVALID_PAGE_ID
       then borrow_right t pid parent_id index right_sibling_page_id
       else Inr (False, t)))"

definition merge_unless_only_child ::
  "BPlusTree \<Rightarrow> page_id_t \<Rightarrow> page_id_t \<Rightarrow> int \<Rightarrow> tree_error + BPlusTree" where
  "merge_unless_only_child t pid parent_id index =
     bindE (get_page t parent_id) (\<lambda>parent.
       if GetSize parent = 1
       then Inr (UnpinPage (UnpinPage t pid True) parent_id True)
       else merge_siblings t pid parent_id index)"

definition RemoveInternal_rebalance :: "BPlusTree \<Rightarrow> page_id_t \<Rightarrow> tree_error + BPlusTree" where
  "RemoveInternal_rebalance t pid =
     bindE (get_page t pid) (\<lambda>cur.
     bindE (FetchPage t (parent_page_id cur)) (\<lambda>t1.
     bindE (get_page t1 (parent_page_id cur)) (\<lambda>parent.
     bindE (try_borrow_left t1 pid (parent_page_id cur) (child_index parent pid)) (\<lambda>(returned, t2).
       if returned then Inr t2
       else
         bindE (try_borrow_right t2 pid (parent_page_id cur) (child_index parent pid)) (\<lambda>(returned, t3).
           if returned then Inr t3
           else merge_unless_only_child t3 pid (parent_page_id cur) (child_index parent pid))))))"

fun RemoveInternal_tree ::
  "nat \<Rightarrow> BPlusTree \<Rightarrow> page_id_t \<Rightarrow> int \<Rightarrow> tree_error + BPlusTree" where
  "RemoveInternal_tree 0 t pid key = Inl out_of_fuel"
| "RemoveInternal_tree (Suc n) t pid key =
     bindE (FetchPage t pid) (\<lambda>t1.
     bindE (get_page t1 pid) (\<lambda>cur.
     bindE (if IsLeafPage cur then
              (let (removed, cur') = RemoveFromLeaf cur key
               in if removed then Inr (True, put_page t1 pid cur')
                  else Inr (False, UnpinPage t1 pid False))
            else
              bindE (LowerBoundInternal cur key) (\<lambda>node.
              bindE (RemoveInternal_tree n t1 (snd node) key) (\<lambda>t2. Inr (True, t2)))) (\<lambda>(go_on, t2).
       if \<not> go_on then Inr t2
       else
         bindE (get_page t2 pid) (\<lambda>cur2.
           if root_page_id t2 = pid \<or> \<not> IsUnderFlowed cur2
           then Inr (UnpinPage t2 pid True)
           else RemoveInternal_rebalance t2 pid))))"

definition Remove_tree :: "nat \<Rightarrow> BPlusTree \<Rightarrow> int \<Rightarrow> tree_error + BPlusTree" where
  "Remove_tree fuel t key =
     (if IsEmpty t then Inr t else RemoveInternal_tree fuel t (root_page_id t) key)"


section \<open>Example trees\<close>

text \<open>
  \<open>Insert_keys\<close> inserts the given keys one after the other, each key \<open>k\<close> with the
  value \<open>10 * k\<close>.
\<close>

definition Insert_keys :: "nat \<Rightarrow> BPlusTree \<Rightarrow> int list \<Rightarrow> tree_error + BPlusTree" where
  "Insert_keys fuel t keys =
     fold (\<lambda>key r. bindE r (\<lambda>t. bindE (Insert fuel t key (10 * key)) (\<lambda>(b, t'). Inr t'))) keys (Inr t)"

text \<open>
  The trees of the examples, all with \<open>leaf_max_size = internal_max_size = 4\<close> over a pool
  whose next free page id is 1: \<open>tree_1\<close> after \<open>Insert(1)\<close>, \<open>tree_1_empty\<close> after
  \<open>Remove(1)\<close> then; \<open>tree_1_6\<close> after inserting the keys 1 to 6; \<open>tree_rm3\<close> and
  \<open>tree_rm3_rm6\<close> after \<open>Remove(3)\<close> and then \<open>Remove(6)\<close>; \<open>tree_rm1\<close> after
  \<open>Remove(1)\<close> on \<open>tree_1_6\<close> and \<open>tree_rm1_7_10\<close> after inserting 7 to 10 then.
\<close>

definition tree_1 :: BPlusTree where
  "tree_1 =
     \<lparr>root_page_id = 1, leaf_max_size = 4, internal_max_size = 4,
      frames =
        [(1, \<lparr>page_type = LEAF_PAGE, max_size = 4, parent_page_id = - 1, bt_page_id = 1,
               bt_next_page_id = - 1, array = [(1, 10)]\<rparr>, 0)],
      next_pid = 2\<rparr>"

definition tree_1_empty :: BPlusTree where
  "tree_1_empty =
     \<lparr>root_page_id = 1, leaf_max_size = 4, internal_max_size = 4,
      frames =
        [(1, \<lparr>page_type = LEAF_PAGE, max_size = 4, parent_page_id = - 1, bt_page_id = 1,
               bt_next_page_id = - 1, array = []\<rparr>, 0)],
      next_pid = 2\<rparr>"

definition tree_1_6 :: BPlusTree where
  "tree_1_6 =
     \<lparr>root_page_id = 2, leaf_max_size = 4, internal_max_size = 4,
      frames =
        [(1, \<lparr>page_type = LEAF_PAGE, max_size = 4, parent_page_id = 2, bt_page_id = 1,
               bt_next_page_id = 3, array = [(1, 10), (2, 20)]\<rparr>, 0),
         (2, \<lparr>page_type = INTERNAL_PAGE, max_size = 4, parent_page_id = - 1, bt_page_id = 2,
               bt_next_page_id = 0, array = [(0, 1), (3, 3), (5, 4)]\<rparr>, 0),
         (3, \<lparr>page_type = LEAF_PAGE, max_size = 4, parent_page_id = 2, bt_page_id = 3,
               bt_next_page_id = 4, array = [(3, 30), (4, 40)]\<rparr>, 0),
         (4, \<lparr>page_type = LEAF_PAGE, max_size = 4, parent_page_id = 2, bt_page_id = 4,
               bt_next_page_id = - 1, array = [(5, 50), (6, 60)]\<rparr>, 0)],
      next_pid = 5\<rparr>"

definition tree_rm3 :: BPlusTree where
  "tree_rm3 =
     \<lparr>root_page_id = 2, leaf_max_size = 4, internal_max_size = 4,
      frames =
        [(1, \<lparr>page_type = LEAF_PAGE, max_size = 4, parent_page_id = 2, bt_page_id = 1,
               bt_next_page_id = 3, array = [(1, 10), (2, 20)]\<rparr>, 1),
         (2, \<lparr>page_type = INTERNAL_PAGE, max_size = 4, parent_page_id = - 1, bt_page_id = 2,
               bt_next_page_id = 0, array = [(0, 1), (3, 3), (5, 4)]\<rparr>, 0),
         (3, \<lparr>page_type = LEAF_PAGE, max_size = 4, parent_page_id = 2, bt_page_id = 3,
               bt_next_page_id = - 1, array = [(4, 40), (5, 50), (6, 60)]\<rparr>, 0),
         (4, \<lparr>page_type = LEAF_PAGE, max_size = 4, parent_page_id = 2, bt_page_id = 4,
               bt_next_page_id = - 1, array = [(5, 50), (6, 60)]\<rparr>, 1)],
      next_pid = 5\<rparr>"

definition tree_rm3_rm6 :: BPlusTree where
  "tree_rm3_rm6 =
     \<lparr>root_page_id = 2, leaf_max_size = 4, internal_max_size = 4,
      frames =
        [(1, \<lparr>page_type = LEAF_PAGE, max_size = 4, parent_page_id = 2, bt_page_id = 1,
               bt_next_page_id = 3, array = [(1, 10), (2, 20)]\<rparr>, 1),
         (2, \<lparr>page_type = INTERNAL_PAGE, max_size = 4, parent_page_id = - 1, bt_page_id = 2,
               bt_next_page_id = 0, array = [(0, 1), (3, 3), (5, 4)]\<rparr>, 0),
         (3, \<lparr>page_type = LEAF_PAGE, max_size = 4, parent_page_id = 2, bt_page_id = 3,
               bt_next_page_id = - 1, array = [(4, 40), (5, 50)]\<rparr>, 0),
         (4, \<lparr>page_type = LEAF_PAGE, max_size = 4, parent_page_id = 2, bt_page_id = 4,
               bt_next_page_id = - 1, array = [(5, 50), (6, 60)]\<rparr>, 1)],
      next_pid = 5\<rparr>"

definition tree_rm1 :: BPlusTree where
  "tree_rm1 =
     \<lparr>root_page_id = 2, leaf_max_size = 4, internal_max_size = 4,
      frames =
        [(1, \<lparr>page_type = LEAF_PAGE, max_size = 4, parent_page_id = 2, bt_page_id = 1,
               bt_next_page_id = 4, array = [(2, 20), (3, 30), (4, 40)]\<rparr>, 0),
         (2, \<lparr>page_type = INTERNAL_PAGE, max_size = 4, parent_page_id = - 1, bt_page_id = 2,
               bt_next_page_id = 0, array = [(0, 1), (5, 4), (5, 4)]\<rparr>, 0),
         (3, \<lparr>page_type = LEAF_PAGE, max_size = 4, parent_page_id = 2, bt_page_id = 3,
               bt_next_page_id = 4, array = [(3, 30), (4, 40)]\<rparr>, 1),
         (4, \<lparr>page_type = LEAF_PAGE, max_size = 4, parent_page_id = 2, bt_page_id = 4,
               bt_next_page_id = - 1, array = [(5, 50), (6, 60)]\<rparr>, 0)],
      next_pid = 5\<rparr>"

definition tree_rm1_7_10 :: BPlusTree where
  "tree_rm1_7_10 =
     \<lparr>root_page_id = 7, leaf_max_size = 4, internal_max_size = 4,
      frames =
        [(1, \<lparr>page_type = LEAF_PAGE, max_size = 4, parent_page_id = 2, bt_page_id = 1,
               bt_next_page_id = 4, array = [(2, 20), (3, 30), (4, 40)]\<rparr>, 0),
         (2, \<lparr>page_type = INTERNAL_PAGE, max_size = 4, parent_page_id = 7, bt_page_id = 2,
               bt_next_page_id = 0, array = [(0, 1), (5, 4)]\<rparr>, 0),
         (3, \<lparr>page_type = LEAF_PAGE, max_size = 4, parent_page_id = 2, bt_page_id = 3,
               bt_next_page_id = 4, array = [(3, 30), (4, 40)]\<rparr>, 1),
         (4, \<lparr>page_type = LEAF_PAGE, max_size = 4, parent_page_id = 8, bt_page_id = 4,
               bt_next_page_id = 5, array = [(5, 50), (6, 60)]\<rparr>, 0),
         (5, \<lparr>page_type = LEAF_PAGE, max_size = 4, parent_page_id = 8, bt_page_id = 5,
               bt_next_page_id = 6, array = [(7, 70), (8, 80)]\<rparr>, 0),
         (6, \<lparr>page_type = LEAF_PAGE, max_size = 4, parent_page_id = 8, bt_page_id = 6,
               bt_next_page_id = - 1, array = [(9, 90), (10, 100)]\<rparr>, 0),
         (7, \<lparr>page_type = INTERNAL_PAGE, max_size = 4, parent_page_id = - 1, bt_page_id = 7,
               bt_next_page_id = 0, array = [(0, 2), (5, 8)]\<rparr>, 0),
         (8, \<lparr>page_type = INTERNAL_PAGE, max_size = 4, parent_page_id = 7, bt_page_id = 8,
               bt_next_page_id = 0, array = [(5, 4), (7, 5), (9, 6)]\<rparr>, 0)],
      next_pid = 9\<rparr>"

text \<open>
  A tree of three levels written down by hand, in which the internal page 30 has a single
  child and so is underflowed while its left sibling, page 20, has three.
\<close>

definition tree_thin :: BPlusTree where
  "tree_thin =
     \<lparr>root_page_id = 10, leaf_max_size = 4, internal_max_size = 4,
      frames =
        [(1, \<lparr>page_type = LEAF_PAGE, max_size = 4, parent_page_id = 20, bt_page_id = 1,
               bt_next_page_id = 2, array = [(1, 10), (2, 20)]\<rparr>, 0),
         (2, \<lparr>page_type = LEAF_PAGE, max_size = 4, parent_page_id = 20, bt_page_id = 2,
               bt_next_page_id = 3, array = [(10, 100), (11, 110)]\<rparr>, 0),
         (3, \<lparr>page_type = LEAF_PAGE, max_size = 4, parent_page_id = 20, bt_page_id = 3,
               bt_next_page_id = 4, array = [(20, 200), (21, 210)]\<rparr>, 0),
         (4, \<lparr>page_type = LEAF_PAGE, max_size = 4, parent_page_id = 30, bt_page_id = 4,
               bt_next_page_id = - 1, array = [(60, 600), (70, 700), (80, 800)]\<rparr>, 0),
         (10, \<lparr>page_type = INTERNAL_PAGE, max_size = 4, parent_page_id = - 1, bt_page_id = 10,
               bt_next_page_id = 0, array = [(0, 20), (50, 30)]\<rparr>, 0),
         (20, \<lparr>page_type = INTERNAL_PAGE, max_size = 4, parent_page_id = 10, bt_page_id = 20,
               bt_next_page_id = 0, array = [(0, 1), (10, 2), (20, 3)]\<rparr>, 0),
         (30, \<lparr>page_type = INTERNAL_PAGE, max_size = 4, parent_page_id = 10, bt_page_id = 30,
               bt_next_page_id = 0, array = [(0, 4)]\<rparr>, 0)],
      next_pid = 31\<rparr>"

text \<open>The children that an internal page names, each with the parent the child records.\<close>

definition child_parents :: "BPlusTree \<Rightarrow> page_id_t \<Rightarrow> tree_error + (page_id_t \<times> page_id_t) list" where
  "child_parents t pid =
     bindE (get_page t pid) (\<lambda>p.
       fold (\<lambda>e r. bindE r (\<lambda>acc. bindE (get_page t (snd e)) (\<lambda>c.
               Inr (acc @ [(snd e, parent_page_id c)])))) (array p) (Inr []))"

section \<open>Extendible hash table (\<open>extendible_hash_table.cpp\<close>)\<close>

text \<open>
  Modelled from the spec: the class declaration (\<open>extendible_hash_table.h\<close>, with the
  inline members \<open>IsFull\<close>, \<open>GetDepth\<close>, \<open>IncrementDepth\<close> and \<open>GetItems\<close> of a bucket)
  is not among the sources. The specification gives every bucket a local depth and a
  bounded list of entries; a bucket is full when its list has \<open>size\<close> entries.

  The directory holds shared pointers to buckets. The model keeps the buckets in a list
  \<open>buckets\<close> that only grows, and the directory as a list of positions in it, so that
  several directory slots can name one bucket. \<open>hash_fn\<close> stands for \<open>std::hash<K>\<close>.
\<close>

record ('k, 'v) Bucket =
  bsize :: nat
  depth :: nat
  items :: "('k \<times> 'v) list"

record ('k, 'v) ExtendibleHashTable =
  global_depth :: nat
  bucket_size :: nat
  num_buckets :: nat
  dir :: "nat list"
  buckets :: "('k, 'v) Bucket list"
  hash_fn :: "'k \<Rightarrow> nat"

datatype ht_error = ht_out_of_fuel | ht_bad_index

definition ExtendibleHashTable_new :: "nat \<Rightarrow> ('k \<Rightarrow> nat) \<Rightarrow> ('k, 'v) ExtendibleHashTable" where
  "ExtendibleHashTable_new bucket_sz h =
     \<lparr>global_depth = 0, bucket_size = bucket_sz, num_buckets = 1, dir = [0],
      buckets = [\<lparr>bsize = bucket_sz, depth = 0, items = []\<rparr>], hash_fn = h\<rparr>"

text \<open>\<open>IndexOf\<close>: the hash masked with \<open>(1 << global_depth) - 1\<close>.\<close>

definition IndexOf :: "('k, 'v) ExtendibleHashTable \<Rightarrow> 'k \<Rightarrow> nat" where
  "IndexOf t key = hash_fn t key mod 2 ^ global_depth t"

definition Bucket_IsFull :: "('k, 'v) Bucket \<Rightarrow> bool" where
  "Bucket_IsFull b = (length (items b) = bsize b)"

text \<open>\<open>Bucket::Find\<close>: the value of the first entry with the key.\<close>

definition Bucket_Find :: "('k, 'v) Bucket \<Rightarrow> 'k \<Rightarrow> 'v option" where
  "Bucket_Find b key = map_of (items b) key"

text \<open>\<open>Bucket::Remove\<close>: erases the first entry with the key.\<close>

fun erase_first :: "('k \<times> 'v) list \<Rightarrow> 'k \<Rightarrow> ('k \<times> 'v) list" where
  "erase_first [] key = []"
| "erase_first (p # ps) key = (if fst p = key then ps else p # erase_first ps key)"

definition Bucket_Remove :: "('k, 'v) Bucket \<Rightarrow> 'k \<Rightarrow> bool \<times> ('k, 'v) Bucket" where
  "Bucket_Remove b key = (key \<in> fst ` set (items b), b\<lparr>items := erase_first (items b) key\<rparr>)"

text \<open>
  \<open>Bucket::Insert\<close>: a full bucket refuses before the key is looked for; otherwise the
  first entry with the key gets the value, or the pair is appended.
\<close>

fun assign_first :: "('k \<times> 'v) list \<Rightarrow> 'k \<Rightarrow> 'v \<Rightarrow> ('k \<times> 'v) list" where
  "assign_first [] key val = [(key, val)]"
| "assign_first (p # ps) key val =
     (if fst p = key then (key, val) # ps else p # assign_first ps key val)"

definition Bucket_Insert :: "('k, 'v) Bucket \<Rightarrow> 'k \<Rightarrow> 'v \<Rightarrow> bool \<times> ('k, 'v) Bucket" where
  "Bucket_Insert b key val =
     (if Bucket_IsFull b then (False, b)
      else (True, b\<lparr>items := assign_first (items b) key val\<rparr>))"

text \<open>
  Reading the directory and the bucket a slot names; a slot outside the directory (or a
  position outside \<open>buckets\<close>) is \<open>ht_bad_index\<close>.
\<close>

definition bucket_at ::
  "('k, 'v) ExtendibleHashTable \<Rightarrow> nat \<Rightarrow> ht_error + (nat \<times> ('k, 'v) Bucket)" where
  "bucket_at t i =
     (if i < length (dir t) \<and> dir t ! i < length (buckets t)
      then Inr (dir t ! i, buckets t ! (dir t ! i))
      else Inl ht_bad_index)"

definition ht_Find :: "('k, 'v) ExtendibleHashTable \<Rightarrow> 'k \<Rightarrow> ht_error + 'v option" where
  "ht_Find t key =
     (case bucket_at t (IndexOf t key) of
        Inl e \<Rightarrow> Inl e
      | Inr (b, bk) \<Rightarrow> Inr (Bucket_Find bk key))"

definition ht_Remove ::
  "('k, 'v) ExtendibleHashTable \<Rightarrow> 'k \<Rightarrow> ht_error + (bool \<times> ('k, 'v) ExtendibleHashTable)" where
  "ht_Remove t key =
     (case bucket_at t (IndexOf t key) of
        Inl e \<Rightarrow> Inl e
      | Inr (b, bk) \<Rightarrow>
          Inr (fst (Bucket_Remove bk key),
               t\<lparr>buckets := (buckets t)[b := snd (Bucket_Remove bk key)]\<rparr>))"

text \<open>
  \<open>for (int i = index; i < (1 << global_depth); i += step, turn = !turn)\<close> and
  \<open>for (int i = index; i >= 0; i -= step, turn = !turn)\<close>, with \<open>step = 1 << old_depth\<close>:
  the slots get the old bucket while \<open>turn\<close> is \<open>false\<close> and the new one while it is
  \<open>true\<close>.
\<close>

function assign_up :: "nat list \<Rightarrow> nat \<Rightarrow> nat \<Rightarrow> nat \<Rightarrow> bool \<Rightarrow> nat \<Rightarrow> nat \<Rightarrow> nat list" where
  "assign_up d i old_depth limit turn old_bucket new_bucket =
     (if i < limit
      then assign_up (d[i := (if turn then new_bucket else old_bucket)]) (i + 2 ^ old_depth)
             old_depth limit (\<not> turn) old_bucket new_bucket
      else d)"
  by pat_completeness auto
termination
  by (relation "measure (\<lambda>(d, i, old_depth, limit, turn, old_bucket, new_bucket). limit - i)")
    (auto intro!: diff_less_mono2)

function assign_down :: "nat list \<Rightarrow> int \<Rightarrow> nat \<Rightarrow> bool \<Rightarrow> nat \<Rightarrow> nat \<Rightarrow> nat list" where
  "assign_down d i old_depth turn old_bucket new_bucket =
     (if i \<ge> 0
      then assign_down (d[nat i := (if turn then new_bucket else old_bucket)]) (i - 2 ^ old_depth)
             old_depth (\<not> turn) old_bucket new_bucket
      else d)"
  by pat_completeness auto
termination
  by (relation "measure (\<lambda>(d, i, old_depth, turn, old_bucket, new_bucket). nat (i + 1))") auto

declare assign_up.simps [simp del] assign_down.simps [simp del]

text \<open>
  \<open>for (auto &p : items) { old_bucket->Remove(p.first);
  dir[IndexOf(p.first)]->Insert(p.first, p.second); }\<close>. The result of the bucket's
  \<open>Insert\<close> is not looked at.
\<close>

fun redistribute ::
  "('k, 'v) ExtendibleHashTable \<Rightarrow> nat \<Rightarrow> ('k \<times> 'v) list \<Rightarrow> ht_error + ('k, 'v) ExtendibleHashTable" where
  "redistribute t old_bucket [] = Inr t"
| "redistribute t old_bucket (p # ps) =
     (if \<not> old_bucket < length (buckets t) then Inl ht_bad_index
      else
        let t1 = t\<lparr>buckets := (buckets t)[old_bucket :=
                     snd (Bucket_Remove (buckets t ! old_bucket) (fst p))]\<rparr>
        in case bucket_at t1 (IndexOf t1 (fst p)) of
             Inl e \<Rightarrow> Inl e
           | Inr (b, bk) \<Rightarrow>
               redistribute (t1\<lparr>buckets := (buckets t1)[b := snd (Bucket_Insert bk (fst p) (snd p))]\<rparr>)
                 old_bucket ps)"

text \<open>
  One round of splitting in \<open>InsertInternal\<close>, from the test of the local depth to
  \<open>num_buckets++\<close>; \<open>index\<close> is the slot computed before the directory grew.
\<close>

definition split_bucket ::
  "('k, 'v) ExtendibleHashTable \<Rightarrow> nat \<Rightarrow> ht_error + ('k, 'v) ExtendibleHashTable" where
  "split_bucket t index =
     (case bucket_at t index of
        Inl e \<Rightarrow> Inl e
      | Inr (old_bucket, bk) \<Rightarrow>
          let t1 = (if depth bk = global_depth t
                    then t\<lparr>global_depth := global_depth t + 1, dir := dir t @ dir t\<rparr>
                    else t);
              old_depth = depth bk;
              new_bucket = length (buckets t1);
              t2 = t1\<lparr>buckets := buckets t1 @ [\<lparr>bsize = bucket_size t1, depth = old_depth, items = []\<rparr>]\<rparr>;
              d1 = assign_up (dir t2) index old_depth (2 ^ global_depth t2) False old_bucket new_bucket;
              d2 = assign_down d1 (int index) old_depth False old_bucket new_bucket;
              t3 = t2\<lparr>dir := d2\<rparr>
          in case redistribute t3 old_bucket (items bk) of
               Inl e \<Rightarrow> Inl e
             | Inr t4 \<Rightarrow>
                 if \<not> (old_bucket < length (buckets t4) \<and> new_bucket < length (buckets t4))
                 then Inl ht_bad_index
                 else
                   let bs1 = (buckets t4)[old_bucket :=
                               (buckets t4 ! old_bucket)\<lparr>depth := depth (buckets t4 ! old_bucket) + 1\<rparr>];
                       bs2 = bs1[new_bucket := (bs1 ! new_bucket)\<lparr>depth := depth (bs1 ! new_bucket) + 1\<rparr>]
                   in Inr (t4\<lparr>buckets := bs2, num_buckets := num_buckets t4 + 1\<rparr>))"

text \<open>
  \<open>InsertInternal\<close> retries after every split; nothing bounds the number of rounds, so
  the model counts them with a fuel argument.
\<close>

fun ht_InsertInternal ::
  "nat \<Rightarrow> ('k, 'v) ExtendibleHashTable \<Rightarrow> 'k \<Rightarrow> 'v \<Rightarrow> bool \<Rightarrow>
     ht_error + (bool \<times> ('k, 'v) ExtendibleHashTable)" where
  "ht_InsertInternal 0 t key val resizable = Inl ht_out_of_fuel"
| "ht_InsertInternal (Suc n) t key val resizable =
     (case bucket_at t (IndexOf t key) of
        Inl e \<Rightarrow> Inl e
      | Inr (b, bk) \<Rightarrow>
          if fst (Bucket_Insert bk key val)
          then Inr (True, t\<lparr>buckets := (buckets t)[b := snd (Bucket_Insert bk key val)]\<rparr>)
          else if \<not> resizable then Inr (False, t)
          else
            (case split_bucket t (IndexOf t key) of
               Inl e \<Rightarrow> Inl e
             | Inr t' \<Rightarrow> ht_InsertInternal n t' key val resizable))"

text \<open>
  \<open>Insert\<close>: a first attempt that may not resize (under the shared latch), and when it
  fails a second one that may.
\<close>

definition ht_Insert ::
  "nat \<Rightarrow> ('k, 'v) ExtendibleHashTable \<Rightarrow> 'k \<Rightarrow> 'v \<Rightarrow> ht_error + ('k, 'v) ExtendibleHashTable" where
  "ht_Insert fuel t key val =
     (case ht_InsertInternal fuel t key val False of
        Inl e \<Rightarrow> Inl e
      | Inr (is_inserted, t1) \<Rightarrow>
          if is_inserted then Inr t1
          else (case ht_InsertInternal fuel t1 key val True of
                  Inl e \<Rightarrow> Inl e
                | Inr (_, t2) \<Rightarrow> Inr t2))"

text \<open>
  A table is \<open>stuck\<close> on a key when its buckets hold one entry each and the bucket of the
  key is full with that key alone, at the depth of the directory.
\<close>

definition stuck :: "('k, 'v) ExtendibleHashTable \<Rightarrow> 'k \<Rightarrow> 'v \<Rightarrow> bool" where
  "stuck t key val =
     (length (dir t) = 2 ^ global_depth t \<and> bucket_size t = 1 \<and>
      dir t ! IndexOf t key < length (buckets t) \<and>
      buckets t ! (dir t ! IndexOf t key) =
        \<lparr>bsize = 1, depth = global_depth t, items = [(key, val)]\<rparr>)"

text \<open>
  The table with \<open>bucket_size = 1\<close> after \<open>Insert(0, 10)\<close>; \<open>std::hash<int>\<close> is taken to
  map a non-negative integer to itself.
\<close>

definition table_0 :: "(int, int) ExtendibleHashTable" where
  "table_0 =
     \<lparr>global_depth = 0, bucket_size = 1, num_buckets = 1, dir = [0],
      buckets = [\<lparr>bsize = 1, depth = 0, items = [(0, 10)]\<rparr>], hash_fn = nat\<rparr>"

section \<open>Properties of the leaf page helpers\<close>

lemma leaf_LowerBound_loop_none:
  "leaf_LowerBound_loop arr key n = -1 \<longleftrightarrow> (\<forall>i<n. key < fst (arr ! i))"
proof (induction n)
  case 0
  show ?case by simp
next
  case (Suc n)
  show ?case
  proof (cases "comparator key (fst (arr ! n)) \<ge> 0")
    case True
    then have "\<not> key < fst (arr ! n)" by (simp add: comparator_def split: if_splits)
    with True show ?thesis by auto
  next
    case False
    then have "key < fst (arr ! n)" by (simp add: comparator_def split: if_splits)
    with False Suc show ?thesis by (auto simp: less_Suc_eq)
  qed
qed

lemma leaf_LowerBound_loop_range:
  "leaf_LowerBound_loop arr key n = -1 \<or>
   (0 \<le> leaf_LowerBound_loop arr key n \<and> leaf_LowerBound_loop arr key n < int n)"
  by (induction n) auto

text \<open>
  Claim C5. The leaf-page \<open>Remove(k)\<close> helper is claimed to remove an entry only on an
  exact match and to leave the page alone (returning \<open>false\<close>) when \<open>k\<close> is absent. On
  the leaf with keys \<open>1\<close> and \<open>3\<close> the source's \<open>Remove(2)\<close> removes the entry of key
  \<open>1\<close> (the slot \<open>LowerBound\<close> returns) and returns \<open>true\<close>.
\<close>

theorem leaf_Remove_absent_key_removes_neighbour:
  "leaf_Remove \<lparr>leaf_array = [(1::int, 10::int), (3, 30)], leaf_next_page_id = INVALID_PAGE_ID\<rparr> 2
     = (True, \<lparr>leaf_array = [(3, 30)], leaf_next_page_id = INVALID_PAGE_ID\<rparr>)"
  by (simp add: leaf_Remove_def leaf_LowerBound_def comparator_def numeral_2_eq_2)

section \<open>Properties of the LRU-K replacer\<close>

lemma loop1_complete:
  assumes "\<forall>i\<in>set is. ev r i \<longrightarrow> length (history r ! i) = k r \<and> history r ! i \<noteq> [] \<and> last (history r ! i) < current_timestamp r"
  shows "\<exists>fid' hdf'. Evict_loop1 r is (fid, hdf) = Inr (fid', hdf') \<and>
          ((fid' = fid \<and> hdf' = hdf \<and> (\<forall>i\<in>set is. ev r i \<longrightarrow> current_timestamp r - last (history r ! i) \<le> hdf)) \<or>
           (\<exists>j\<in>set is. fid' = int j \<and> ev r j \<and> hdf' = current_timestamp r - last (history r ! j) \<and> hdf < hdf' \<and>
              (\<forall>i\<in>set is. ev r i \<longrightarrow> current_timestamp r - last (history r ! i) \<le> hdf')))"
  using assms
proof (induction "is" arbitrary: fid hdf)
  case Nil
  then show ?case by simp
next
  case (Cons i rest)
  show ?case
  proof (cases "ev r i")
    case False
    with Cons.IH[of fid hdf] Cons.prems show ?thesis by (auto simp: ev_def)
  next
    case True
    with Cons.prems have c: "length (history r ! i) = k r" "history r ! i \<noteq> []"
      "last (history r ! i) < current_timestamp r" by auto
    let ?d = "current_timestamp r - last (history r ! i)"
    have d: "size_t_sub (current_timestamp r) (last (history r ! i)) = ?d"
      using c by (simp add: size_t_sub_def)
    show ?thesis
    proof (cases "hdf < ?d")
      case gt: True
      from Cons.IH[of "int i" ?d] Cons.prems
      obtain fid' hdf' where r: "Evict_loop1 r rest (int i, ?d) = Inr (fid', hdf')"
        "(fid' = int i \<and> hdf' = ?d \<and> (\<forall>i\<in>set rest. ev r i \<longrightarrow> current_timestamp r - last (history r ! i) \<le> ?d)) \<or>
           (\<exists>j\<in>set rest. fid' = int j \<and> ev r j \<and> hdf' = current_timestamp r - last (history r ! j) \<and> ?d < hdf' \<and>
              (\<forall>i\<in>set rest. ev r i \<longrightarrow> current_timestamp r - last (history r ! i) \<le> hdf'))"
        by auto
      have e: "Evict_loop1 r (i # rest) (fid, hdf) = Inr (fid', hdf')"
        using True c d gt r(1) by (simp add: ev_def Let_def)
      from r(2) show ?thesis
      proof
        assume "fid' = int i \<and> hdf' = ?d \<and> (\<forall>i\<in>set rest. ev r i \<longrightarrow> current_timestamp r - last (history r ! i) \<le> ?d)"
        with e True gt show ?thesis by auto
      next
        assume "\<exists>j\<in>set rest. fid' = int j \<and> ev r j \<and> hdf' = current_timestamp r - last (history r ! j) \<and> ?d < hdf' \<and>
              (\<forall>i\<in>set rest. ev r i \<longrightarrow> current_timestamp r - last (history r ! i) \<le> hdf')"
        with e True gt show ?thesis by force
      qed
    next
      case le: False
      from Cons.IH[of fid hdf] Cons.prems
      obtain fid' hdf' where r: "Evict_loop1 r rest (fid, hdf) = Inr (fid', hdf')"
        "(fid' = fid \<and> hdf' = hdf \<and> (\<forall>i\<in>set rest. ev r i \<longrightarrow> current_timestamp r - last (history r ! i) \<le> hdf)) \<or>
           (\<exists>j\<in>set rest. fid' = int j \<and> ev r j \<and> hdf' = current_timestamp r - last (history r ! j) \<and> hdf < hdf' \<and>
              (\<forall>i\<in>set rest. ev r i \<longrightarrow> current_timestamp r - last (history r ! i) \<le> hdf'))"
        by auto
      have e: "Evict_loop1 r (i # rest) (fid, hdf) = Inr (fid', hdf')"
        using True c d le r(1) by (simp add: ev_def Let_def)
      from r(2) show ?thesis
      proof
        assume "fid' = fid \<and> hdf' = hdf \<and> (\<forall>i\<in>set rest. ev r i \<longrightarrow> current_timestamp r - last (history r ! i) \<le> hdf)"
        with e True le show ?thesis by auto
      next
        assume "\<exists>j\<in>set rest. fid' = int j \<and> ev r j \<and> hdf' = current_timestamp r - last (history r ! j) \<and> hdf < hdf' \<and>
              (\<forall>i\<in>set rest. ev r i \<longrightarrow> current_timestamp r - last (history r ! i) \<le> hdf')"
        with e True le show ?thesis by force
      qed
    qed
  qed
qed

lemma loop1_incomplete:
  assumes "\<exists>i\<in>set is. ev r i \<and> length (history r ! i) \<noteq> k r"
    and "\<forall>i\<in>set is. ev r i \<longrightarrow> history r ! i \<noteq> []"
  shows "\<exists>fid'. Evict_loop1 r is (fid, hdf) = Inr (fid', 1000000000)"
  using assms
proof (induction "is" arbitrary: fid hdf)
  case Nil
  then show ?case by simp
next
  case (Cons i rest)
  show ?case
  proof (cases "ev r i \<and> length (history r ! i) \<noteq> k r")
    case True
    then show ?thesis by (simp add: ev_def)
  next
    case False
    with Cons.prems have "\<exists>i\<in>set rest. ev r i \<and> length (history r ! i) \<noteq> k r" by auto
    with Cons.IH Cons.prems have "\<And>fid hdf. \<exists>fid'. Evict_loop1 r rest (fid, hdf) = Inr (fid', 1000000000)"
      by auto
    with False Cons.prems(2) show ?thesis by (auto simp: ev_def Let_def)
  qed
qed

lemma loop2_min:
  assumes "\<forall>i\<in>set is. ev r i \<longrightarrow> history r ! i \<noteq> []"
  shows "\<exists>fid' et'. Evict_loop2 r is (fid, et) = Inr (fid', et') \<and>
          ((fid' = fid \<and> et' = et \<and>
            (\<forall>i\<in>set is. ev r i \<and> length (history r ! i) \<noteq> k r \<longrightarrow> et \<le> last (history r ! i))) \<or>
           (\<exists>j\<in>set is. fid' = int j \<and> ev r j \<and> length (history r ! j) \<noteq> k r \<and>
              et' = last (history r ! j) \<and> et' < et \<and>
              (\<forall>i\<in>set is. ev r i \<and> length (history r ! i) \<noteq> k r \<longrightarrow> et' \<le> last (history r ! i))))"
  using assms
proof (induction "is" arbitrary: fid et)
  case Nil
  then show ?case by simp
next
  case (Cons i rest)
  show ?case
  proof (cases "ev r i \<and> length (history r ! i) \<noteq> k r")
    case False
    then have e: "Evict_loop2 r (i # rest) (fid, et) = Evict_loop2 r rest (fid, et)"
      by (auto simp: ev_def)
    from Cons.IH[of fid et] Cons.prems False show ?thesis
      unfolding e by auto
  next
    case True
    with Cons.prems have ne: "history r ! i \<noteq> []" by auto
    let ?b = "last (history r ! i)"
    show ?thesis
    proof (cases "?b < et")
      case lt: True
      have e: "Evict_loop2 r (i # rest) (fid, et) = Evict_loop2 r rest (int i, ?b)"
        using True ne lt by (auto simp: ev_def)
      from Cons.IH[of "int i" ?b] Cons.prems
      obtain fid' et' where r: "Evict_loop2 r rest (int i, ?b) = Inr (fid', et')"
        "(fid' = int i \<and> et' = ?b \<and>
            (\<forall>i\<in>set rest. ev r i \<and> length (history r ! i) \<noteq> k r \<longrightarrow> ?b \<le> last (history r ! i))) \<or>
           (\<exists>j\<in>set rest. fid' = int j \<and> ev r j \<and> length (history r ! j) \<noteq> k r \<and>
              et' = last (history r ! j) \<and> et' < ?b \<and>
              (\<forall>i\<in>set rest. ev r i \<and> length (history r ! i) \<noteq> k r \<longrightarrow> et' \<le> last (history r ! i)))"
        by auto
      from r(2) show ?thesis
      proof
        assume "fid' = int i \<and> et' = ?b \<and>
            (\<forall>i\<in>set rest. ev r i \<and> length (history r ! i) \<noteq> k r \<longrightarrow> ?b \<le> last (history r ! i))"
        with e r(1) True lt show ?thesis by auto
      next
        assume "\<exists>j\<in>set rest. fid' = int j \<and> ev r j \<and> length (history r ! j) \<noteq> k r \<and>
              et' = last (history r ! j) \<and> et' < ?b \<and>
              (\<forall>i\<in>set rest. ev r i \<and> length (history r ! i) \<noteq> k r \<longrightarrow> et' \<le> last (history r ! i))"
        with e r(1) True lt show ?thesis by force
      qed
    next
      case ge: False
      have e: "Evict_loop2 r (i # rest) (fid, et) = Evict_loop2 r rest (fid, et)"
        using True ne ge by (auto simp: ev_def)
      from Cons.IH[of fid et] Cons.prems
      obtain fid' et' where r: "Evict_loop2 r rest (fid, et) = Inr (fid', et')"
        "(fid' = fid \<and> et' = et \<and>
            (\<forall>i\<in>set rest. ev r i \<and> length (history r ! i) \<noteq> k r \<longrightarrow> et \<le> last (history r ! i))) \<or>
           (\<exists>j\<in>set rest. fid' = int j \<and> ev r j \<and> length (history r ! j) \<noteq> k r \<and>
              et' = last (history r ! j) \<and> et' < et \<and>
              (\<forall>i\<in>set rest. ev r i \<and> length (history r ! i) \<noteq> k r \<longrightarrow> et' \<le> last (history r ! i)))"
        by auto
      from r(2) show ?thesis
      proof
        assume "fid' = fid \<and> et' = et \<and>
            (\<forall>i\<in>set rest. ev r i \<and> length (history r ! i) \<noteq> k r \<longrightarrow> et \<le> last (history r ! i))"
        with e r(1) True ge show ?thesis by auto
      next
        assume "\<exists>j\<in>set rest. fid' = int j \<and> ev r j \<and> length (history r ! j) \<noteq> k r \<and>
              et' = last (history r ! j) \<and> et' < et \<and>
              (\<forall>i\<in>set rest. ev r i \<and> length (history r ! i) \<noteq> k r \<longrightarrow> et' \<le> last (history r ! i))"
        with e r(1) True ge show ?thesis by force
      qed
    qed
  qed
qed

lemma set_evictable_frames:
  "set (evictable_frames r) = {i. i < replacer_size r \<and> ev r i}"
  by (auto simp: evictable_frames_def ev_def)

lemma wf_ev:
  assumes "wf_replacer r" "i \<in> set (evictable_frames r)"
  shows "history r ! i \<noteq> []" "length (history r ! i) \<le> k r"
    "last (history r ! i) < current_timestamp r" "ev r i" "i < replacer_size r"
    "in_bounds r (int i)"
proof -
  from assms have i: "i < replacer_size r" "ev r i" by (auto simp: set_evictable_frames)
  with assms(1) have ok: "frame_ok r i" by (simp add: wf_replacer_def)
  from i ok show ne: "history r ! i \<noteq> []" by (simp add: frame_ok_def ev_def)
  from ok show "length (history r ! i) \<le> k r" by (simp add: frame_ok_def)
  from ok ne show "last (history r ! i) < current_timestamp r"
    by (simp add: frame_ok_def)
  from i show "ev r i" "i < replacer_size r" by simp_all
  from i assms(1) show "in_bounds r (int i)" by (simp add: wf_replacer_def in_bounds_def)
qed

lemma Remove_evictable:
  assumes "wf_replacer r" "i \<in> set (evictable_frames r)"
  shows "Remove r (int i) = RemoveInternal r (int i)"
  using wf_ev[OF assms] by (simp add: Remove_def IsValidFrameId_def ev_def)

lemma Evict_nonempty:
  assumes wf: "wf_replacer r" and ne: "evictable_frames r \<noteq> []"
  shows "\<exists>v r'. Evict r = Inr (Some (int v), r') \<and> Evict_spec r v \<and> Remove r (int v) = Inr r'"
proof -
  let ?E = "evictable_frames r"
  let ?is = "[0..<replacer_size r]"
  have cs: "curr_size r \<noteq> 0" using wf ne by (simp add: wf_replacer_def)
  have E: "\<And>i. i \<in> set ?is \<Longrightarrow> ev r i \<Longrightarrow> i \<in> set ?E"
    by (simp add: set_evictable_frames)
  have E': "\<And>i. i \<in> set ?E \<Longrightarrow> i \<in> set ?is \<and> ev r i"
    by (simp add: set_evictable_frames)
  have ri: "\<And>v. v \<in> set ?E \<Longrightarrow> \<exists>r'. RemoveInternal r (int v) = Inr r'"
    using wf_ev(6)[OF wf] by (simp add: RemoveInternal_def)
  show ?thesis
  proof (cases "\<exists>i\<in>set ?E. length (history r ! i) < k r")
    case True
    then have "\<exists>i\<in>set ?is. ev r i \<and> length (history r ! i) \<noteq> k r"
      using E' by fastforce
    moreover have nn: "\<forall>i\<in>set ?is. ev r i \<longrightarrow> history r ! i \<noteq> []"
      using E wf_ev(1)[OF wf] by blast
    ultimately obtain fid1 where l1: "Evict_loop1 r ?is (1000000000, 0) = Inr (fid1, 1000000000)"
      using loop1_incomplete by blast
    from loop2_min[OF nn, of fid1 "current_timestamp r"]
    obtain fid' et' where l2: "Evict_loop2 r ?is (fid1, current_timestamp r) = Inr (fid', et')"
      and alt: "(fid' = fid1 \<and> et' = current_timestamp r \<and>
            (\<forall>i\<in>set ?is. ev r i \<and> length (history r ! i) \<noteq> k r \<longrightarrow> current_timestamp r \<le> last (history r ! i))) \<or>
           (\<exists>j\<in>set ?is. fid' = int j \<and> ev r j \<and> length (history r ! j) \<noteq> k r \<and>
              et' = last (history r ! j) \<and> et' < current_timestamp r \<and>
              (\<forall>i\<in>set ?is. ev r i \<and> length (history r ! i) \<noteq> k r \<longrightarrow> et' \<le> last (history r ! i)))"
      by blast
    from True obtain i0 where i0: "i0 \<in> set ?E" "length (history r ! i0) < k r" by blast
    have "\<not> (\<forall>i\<in>set ?is. ev r i \<and> length (history r ! i) \<noteq> k r \<longrightarrow> current_timestamp r \<le> last (history r ! i))"
      using i0 E'[OF i0(1)] wf_ev(3)[OF wf i0(1)] by force
    with alt obtain j where j: "j \<in> set ?is" "fid' = int j" "ev r j" "length (history r ! j) \<noteq> k r"
      "\<forall>i\<in>set ?is. ev r i \<and> length (history r ! i) \<noteq> k r \<longrightarrow> last (history r ! j) \<le> last (history r ! i)"
      by blast
    have jE: "j \<in> set ?E" using E j by blast
    have jl: "length (history r ! j) < k r" using wf_ev(2)[OF wf jE] j(4) by simp
    have spec: "Evict_spec r j"
      unfolding Evict_spec_def using True jE jl j(5) E' by force
    from ri[OF jE] obtain r' where r': "RemoveInternal r (int j) = Inr r'" by blast
    have "Evict r = Inr (Some (int j), r')"
      using cs l1 l2 j(2) r' by (simp add: Evict_def)
    with spec r' Remove_evictable[OF wf jE] show ?thesis by auto
  next
    case False
    then have allk: "\<And>i. i \<in> set ?E \<Longrightarrow> length (history r ! i) = k r"
      using wf_ev(2)[OF wf] by force
    have pre: "\<forall>i\<in>set ?is. ev r i \<longrightarrow> length (history r ! i) = k r \<and> history r ! i \<noteq> [] \<and>
        last (history r ! i) < current_timestamp r"
      using E allk wf_ev(1,3)[OF wf] by blast
    from loop1_complete[OF pre, of 1000000000 0]
    obtain fid' hdf' where l1: "Evict_loop1 r ?is (1000000000, 0) = Inr (fid', hdf')"
      and alt: "(fid' = 1000000000 \<and> hdf' = 0 \<and> (\<forall>i\<in>set ?is. ev r i \<longrightarrow> current_timestamp r - last (history r ! i) \<le> 0)) \<or>
           (\<exists>j\<in>set ?is. fid' = int j \<and> ev r j \<and> hdf' = current_timestamp r - last (history r ! j) \<and> 0 < hdf' \<and>
              (\<forall>i\<in>set ?is. ev r i \<longrightarrow> current_timestamp r - last (history r ! i) \<le> hdf'))"
      by blast
    from ne obtain i0 where i0: "i0 \<in> set ?E" by (cases ?E) auto
    have "\<not> (\<forall>i\<in>set ?is. ev r i \<longrightarrow> current_timestamp r - last (history r ! i) \<le> 0)"
      using E'[OF i0] wf_ev(3)[OF wf i0] by force
    with alt obtain j where j: "j \<in> set ?is" "fid' = int j" "ev r j"
      "hdf' = current_timestamp r - last (history r ! j)"
      "\<forall>i\<in>set ?is. ev r i \<longrightarrow> current_timestamp r - last (history r ! i) \<le> hdf'"
      by blast
    have jE: "j \<in> set ?E" using E j by blast
    have minj: "\<forall>i\<in>set ?E. last (history r ! j) \<le> last (history r ! i)"
    proof
      fix i assume i: "i \<in> set ?E"
      then have "current_timestamp r - last (history r ! i) \<le> current_timestamp r - last (history r ! j)"
        using j(4,5) E' by auto
      with wf_ev(3)[OF wf i] wf_ev(3)[OF wf jE] show "last (history r ! j) \<le> last (history r ! i)"
        by arith
    qed
    have spec: "Evict_spec r j"
      unfolding Evict_spec_def using False jE allk minj by auto
    have l2: "hdf' = 1000000000 \<Longrightarrow>
        Evict_loop2 r ?is (int j, current_timestamp r) = Inr (int j, current_timestamp r)"
    proof -
      have nn: "\<forall>i\<in>set ?is. ev r i \<longrightarrow> history r ! i \<noteq> []" using pre by blast
      from loop2_min[OF nn, of "int j" "current_timestamp r"] pre
      show ?thesis by auto
    qed
    from ri[OF jE] obtain r' where r': "RemoveInternal r (int j) = Inr r'" by blast
    have "Evict r = Inr (Some (int j), r')"
      using cs l1 l2 j(2) r' by (cases "hdf' = 1000000000") (simp_all add: Evict_def)
    with spec r' Remove_evictable[OF wf jE] show ?thesis by auto
  qed
qed

lemma count_conv_card:
  "length (filter P [0..<n]) = card {i. i < n \<and> P i}"
proof -
  have "{i. i < n \<and> P ([0..<n] ! i)} = {i. i < n \<and> P i}" by auto
  then show ?thesis by (simp add: length_filter_conv_card)
qed

lemma count_same:
  assumes "\<And>i. i < n \<Longrightarrow> P i = Q i"
  shows "length (filter P [0..<n]) = length (filter Q [0..<n])"
proof -
  have "{i. i < n \<and> P i} = {i. i < n \<and> Q i}" using assms by auto
  then show ?thesis by (simp add: count_conv_card)
qed

lemma count_add:
  assumes "f < n" "\<not> P f" "Q f" "\<And>i. i < n \<Longrightarrow> i \<noteq> f \<Longrightarrow> P i = Q i"
  shows "length (filter Q [0..<n]) = length (filter P [0..<n]) + 1"
proof -
  have "{i. i < n \<and> Q i} = insert f {i. i < n \<and> P i}" using assms by auto
  moreover have "f \<notin> {i. i < n \<and> P i}" using assms by simp
  moreover have "finite {i. i < n \<and> P i}" by simp
  ultimately show ?thesis by (simp add: count_conv_card)
qed

lemma count_del:
  assumes "f < n" "P f" "\<not> Q f" "\<And>i. i < n \<Longrightarrow> i \<noteq> f \<Longrightarrow> P i = Q i"
  shows "length (filter P [0..<n]) = length (filter Q [0..<n]) + 1"
  using count_add[of f n Q P] assms by simp

lemma evictable_frames_curr_size [simp]:
  "evictable_frames (r\<lparr>curr_size := c\<rparr>) = evictable_frames r"
  by (simp add: evictable_frames_def)

lemma wf_new: "1 \<le> kk \<Longrightarrow> wf_replacer (LRUKReplacer_new n kk)"
  by (simp add: wf_replacer_def LRUKReplacer_new_def evictable_frames_def frame_ok_def)

lemma wf_RemoveInternal:
  assumes wf: "wf_replacer r" and f: "f \<in> set (evictable_frames r)"
    and R: "RemoveInternal r (int f) = Inr r'"
  shows "wf_replacer r'"
proof -
  let ?n = "replacer_size r"
  have fn: "f < ?n" and evf: "allocated r ! f" "evictable r ! f"
    using wf_ev(4,5)[OF wf f] by (auto simp: ev_def)
  have len: "length (history r) = ?n" "length (allocated r) = ?n" "length (evictable r) = ?n"
    using wf by (auto simp: wf_replacer_def)
  have r': "r' = r\<lparr>history := (history r)[f := []], evictable := (evictable r)[f := False],
                  allocated := (allocated r)[f := False], curr_size := size_t_sub (curr_size r) 1\<rparr>"
    using R wf_ev(6)[OF wf f] by (simp add: RemoveInternal_def)
  have "length (filter (\<lambda>i. allocated r ! i \<and> evictable r ! i) [0..<?n]) =
        length (filter (\<lambda>i. (allocated r)[f := False] ! i \<and> (evictable r)[f := False] ! i) [0..<?n]) + 1"
    by (rule count_del[of f]) (use fn evf len in \<open>auto simp: nth_list_update\<close>)
  then have cnt: "length (evictable_frames r) = length (evictable_frames r') + 1"
    by (simp add: evictable_frames_def r')
  have cs: "curr_size r = length (evictable_frames r)" using wf by (simp add: wf_replacer_def)
  have c': "curr_size r' = length (evictable_frames r')"
    using cnt cs by (simp add: r' size_t_sub_def)
  have ok: "frame_ok r' i" if "i < ?n" for i
  proof (cases "i = f")
    case True
    then show ?thesis using len fn by (simp add: frame_ok_def r')
  next
    case False
    from wf that have "frame_ok r i" by (simp add: wf_replacer_def)
    with False show ?thesis by (simp add: frame_ok_def r')
  qed
  have "length (history r') = replacer_size r'" "length (allocated r') = replacer_size r'"
      "length (evictable r') = replacer_size r'" "1 \<le> k r'" "replacer_size r' = ?n"
    using wf unfolding r' wf_replacer_def by auto
  with c' ok show ?thesis unfolding wf_replacer_def by simp
qed

lemma wf_Remove:
  assumes wf: "wf_replacer r" and R: "Remove r fid = Inr r'"
  shows "wf_replacer r'"
proof (cases "IsValidFrameId r fid \<and> in_bounds r fid \<and> allocated r ! nat fid")
  case False
  with R have "r' = r" by (auto simp: Remove_def split: if_splits)
  with wf show ?thesis by simp
next
  case True
  with R have e: "evictable r ! nat fid" and ri: "RemoveInternal r fid = Inr r'"
    by (auto simp: Remove_def split: if_splits)
  from True have "0 \<le> fid" "nat fid < replacer_size r"
    by (auto simp: in_bounds_def IsValidFrameId_def)
  with True e have "nat fid \<in> set (evictable_frames r)"
    by (simp add: set_evictable_frames ev_def)
  from wf_RemoveInternal[OF wf this] ri \<open>0 \<le> fid\<close> show ?thesis by simp
qed

lemma wf_Evict:
  assumes wf: "wf_replacer r" and R: "Evict r = Inr (res, r')"
  shows "wf_replacer r'"
proof (cases "evictable_frames r = []")
  case True
  with wf have "curr_size r = 0" by (simp add: wf_replacer_def)
  with R wf show ?thesis by (simp add: Evict_def)
next
  case False
  from Evict_nonempty[OF wf False] R obtain v where
    "Remove r (int v) = Inr r'" by auto
  from wf_Remove[OF wf this] show ?thesis .
qed

lemma wf_SetEvictable:
  assumes wf: "wf_replacer r" and R: "SetEvictable r fid b = Inr r'"
  shows "wf_replacer r'"
proof (cases "IsValidFrameId r fid \<and> in_bounds r fid \<and> allocated r ! nat fid")
  case False
  with R have "r' = r" by (auto simp: SetEvictable_def Let_def split: if_splits)
  with wf show ?thesis by simp
next
  case True
  let ?f = "nat fid"
  let ?n = "replacer_size r"
  have len: "length (history r) = ?n" "length (allocated r) = ?n" "length (evictable r) = ?n"
    using wf by (auto simp: wf_replacer_def)
  have fn: "?f < ?n" using True len by (simp add: in_bounds_def)
  have cs: "curr_size r = length (evictable_frames r)" using wf by (simp add: wf_replacer_def)
  have rest: "\<And>c. wf_replacer (r\<lparr>curr_size := c, evictable := (evictable r)[?f := b]\<rparr>)
      = (c = length (evictable_frames (r\<lparr>curr_size := c, evictable := (evictable r)[?f := b]\<rparr>)))"
    using wf unfolding wf_replacer_def by (auto simp: frame_ok_def)
  show ?thesis
  proof (cases "evictable r ! ?f = b")
    case same: True
    then have "r' = r\<lparr>curr_size := curr_size r, evictable := (evictable r)[?f := b]\<rparr>"
      using R True by (auto simp: SetEvictable_def Let_def split: if_splits)
    moreover have "(evictable r)[?f := b] = evictable r" using same list_update_id[of "evictable r" ?f] by simp
    ultimately have "r' = r" by simp
    with wf show ?thesis by simp
  next
    case diff: False
    show ?thesis
    proof (cases b)
      case bt: True
      with diff have ne: "\<not> evictable r ! ?f" by simp
      have r': "r' = r\<lparr>curr_size := curr_size r + 1, evictable := (evictable r)[?f := b]\<rparr>"
        using R True ne bt by (auto simp: SetEvictable_def Let_def split: if_splits)
      have "length (filter (\<lambda>i. allocated r ! i \<and> (evictable r)[?f := b] ! i) [0..<?n]) =
            length (filter (\<lambda>i. allocated r ! i \<and> evictable r ! i) [0..<?n]) + 1"
        by (rule count_add[of ?f]) (use fn True ne bt len in \<open>auto simp: nth_list_update\<close>)
      then have "length (evictable_frames r') = length (evictable_frames r) + 1"
        by (simp add: evictable_frames_def r')
      with cs rest[of "curr_size r + 1"] show ?thesis unfolding r' by simp
    next
      case bf: False
      with diff have e: "evictable r ! ?f" by simp
      have r': "r' = r\<lparr>curr_size := size_t_sub (curr_size r) 1, evictable := (evictable r)[?f := b]\<rparr>"
        using R True e bf by (auto simp: SetEvictable_def Let_def split: if_splits)
      have "length (filter (\<lambda>i. allocated r ! i \<and> evictable r ! i) [0..<?n]) =
            length (filter (\<lambda>i. allocated r ! i \<and> (evictable r)[?f := b] ! i) [0..<?n]) + 1"
        by (rule count_del[of ?f]) (use fn True e bf len in \<open>auto simp: nth_list_update\<close>)
      then have "length (evictable_frames r) = length (evictable_frames r') + 1"
        by (simp add: evictable_frames_def r')
      moreover have "evictable_frames r' = evictable_frames (r\<lparr>evictable := (evictable r)[?f := b]\<rparr>)"
        by (simp add: r' evictable_frames_def)
      ultimately have "size_t_sub (curr_size r) 1 = length (evictable_frames r')"
        using cs by (simp add: size_t_sub_def)
      with rest[of "size_t_sub (curr_size r) 1"] show ?thesis unfolding r' by simp
    qed
  qed
qed

lemma wf_RecordAccess:
  assumes wf: "wf_replacer r" and R: "RecordAccess r fid = Inr r'"
  shows "wf_replacer r'"
proof -
  let ?n = "replacer_size r"
  let ?f = "nat fid"
  let ?h = "current_timestamp r # (history r ! ?f)"
  let ?h' = "if length ?h > k r then butlast ?h else ?h"
  have len: "length (history r) = ?n" "length (allocated r) = ?n" "length (evictable r) = ?n"
    and k1: "1 \<le> k r" and cs: "curr_size r = length (evictable_frames r)"
    using wf by (auto simp: wf_replacer_def)
  from R have v: "IsValidFrameId r fid" "in_bounds r fid"
    by (auto simp: RecordAccess_def split: if_splits)
  then have fn: "?f < ?n" using len by (simp add: in_bounds_def)
  have okf: "frame_ok r ?f" using wf fn by (simp add: wf_replacer_def)
  have hist: "history r' = (history r)[?f := ?h']"
    and ts: "current_timestamp r' = current_timestamp r + 1"
    and al: "allocated r' = (allocated r)[?f := True]"
    and evi: "evictable r' = (if allocated r ! ?f then evictable r else (evictable r)[?f := False])"
    and oth: "curr_size r' = curr_size r" "replacer_size r' = ?n" "k r' = k r"
  proof -
    have alid: "allocated r ! ?f \<Longrightarrow> (allocated r)[?f := True] = allocated r"
      using list_update_id[of "allocated r" ?f] by simp
    show "history r' = (history r)[?f := ?h']"
      "current_timestamp r' = current_timestamp r + 1"
      "allocated r' = (allocated r)[?f := True]"
      "evictable r' = (if allocated r ! ?f then evictable r else (evictable r)[?f := False])"
      "curr_size r' = curr_size r" "replacer_size r' = ?n" "k r' = k r"
      using R v len fn alid
      by (auto simp: RecordAccess_def Let_def split: if_splits)
  qed
  have "length (filter (\<lambda>i. allocated r' ! i \<and> evictable r' ! i) [0..<?n]) =
        length (filter (\<lambda>i. allocated r ! i \<and> evictable r ! i) [0..<?n])"
    by (rule count_same) (use len fn in \<open>auto simp: al evi nth_list_update\<close>)
  then have c': "curr_size r' = length (evictable_frames r')"
    using cs oth by (simp add: evictable_frames_def)
  have hne: "?h' \<noteq> []" using k1 by (cases "history r ! ?f") auto
  have hlen: "length ?h' \<le> k r" using okf by (auto simp: frame_ok_def)
  have hts: "\<forall>t \<in> set ?h'. t < current_timestamp r + 1"
  proof
    fix t assume "t \<in> set ?h'"
    then have "t \<in> set ?h" by (auto dest: in_set_butlastD split: if_splits)
    with okf show "t < current_timestamp r + 1" by (auto simp: frame_ok_def)
  qed
  have ok: "frame_ok r' i" if "i < ?n" for i
  proof (cases "i = ?f")
    case True
    with hne hlen hts len fn show ?thesis
      unfolding frame_ok_def hist ts al oth by simp
  next
    case False
    from wf that have "frame_ok r i" by (simp add: wf_replacer_def)
    with False show ?thesis
      unfolding frame_ok_def hist ts al oth by auto
  qed
  from c' ok len k1 show ?thesis
    unfolding wf_replacer_def by (auto simp: oth hist al evi)
qed

subsection \<open>The variant with two maps\<close>

text \<open>The first entry of a map in key order has the least key.\<close>

lemma hd_least:
  fixes p :: "nat \<times> 'b"
  assumes "sorted_wrt (<) (map fst (p # ps))" "q \<in> set (p # ps)"
  shows "fst p \<le> fst q"
  using assms by (auto intro: less_imp_le)

lemma EvictM_nonempty:
  assumes wf: "wf_replacerM r" and ne: "evictable_frames (core r) \<noteq> []"
  shows "\<exists>v r'. EvictM r = Inr (Some (int v), r') \<and> Evict_spec (core r) v \<and>
                 RemoveM r (int v) = Inr r'"
proof -
  let ?c = "core r"
  let ?E = "evictable_frames ?c"
  have wfc: "wf_replacer ?c" using wf by (simp add: wf_replacerM_def)
  have cs: "curr_size ?c \<noteq> 0" using wfc ne by (simp add: wf_replacer_def)
  have le: "\<And>i. i \<in> set ?E \<Longrightarrow> length (history ?c ! i) \<le> k ?c"
    using wf_ev(2)[OF wfc] .
  define m where "m = (if incomplete_histories r \<noteq> [] then incomplete_histories r
               else complete_histories r)"
  have inc: "set (incomplete_histories r) = keyed ?c False"
    and com: "set (complete_histories r) = keyed ?c True"
    and srt: "sorted_wrt (<) (map fst (complete_histories r))"
      "sorted_wrt (<) (map fst (incomplete_histories r))"
    using wf by (auto simp: wf_replacerM_def)
  from ne obtain i0 where i0: "i0 \<in> set ?E" by (cases ?E) auto
  have "(last (history ?c ! i0), int i0) \<in> keyed ?c True \<union> keyed ?c False"
    using i0 by (auto simp: keyed_def)
  then have mne: "m \<noteq> []" using inc com by (auto simp: m_def)
  then obtain p ps where m: "m = p # ps" by (cases m) auto
  have pin: "p \<in> set m" using m by simp
  show ?thesis
  proof (cases "incomplete_histories r \<noteq> []")
    case True
    then have mi: "m = incomplete_histories r" by (simp add: m_def)
    with pin inc obtain v where v: "p = (last (history ?c ! v), int v)" "v \<in> set ?E"
      "length (history ?c ! v) \<noteq> k ?c"
      by (auto simp: keyed_def)
    have vl: "length (history ?c ! v) < k ?c" using le[OF v(2)] v(3) by simp
    have min: "\<forall>i\<in>set ?E. length (history ?c ! i) < k ?c \<longrightarrow>
        last (history ?c ! v) \<le> last (history ?c ! i)"
    proof (intro ballI impI)
      fix i assume i: "i \<in> set ?E" "length (history ?c ! i) < k ?c"
      then have "(last (history ?c ! i), int i) \<in> set m"
        using inc mi by (auto simp: keyed_def)
      moreover have "sorted_wrt (<) (map fst (p # ps))" using srt(2) mi m by metis
      ultimately have "fst p \<le> fst (last (history ?c ! i), int i)"
        unfolding m by (rule hd_least[rotated])
      then show "last (history ?c ! v) \<le> last (history ?c ! i)" using v(1) by simp
    qed
    have spec: "Evict_spec ?c v"
      unfolding Evict_spec_def using v(2) vl min by auto
    have ib: "in_bounds ?c (int v)" "history ?c ! v \<noteq> []"
      using wf_ev(6,1)[OF wfc v(2)] by simp_all
    then obtain r' where r': "RemoveInternalM r (int v) = Inr r'"
      by (simp add: RemoveInternalM_def Let_def)
    have ih: "incomplete_histories r = (last (history ?c ! v), int v) # ps"
      using mi m v(1) by metis
    have "EvictM r = Inr (Some (int v), r')"
      using cs r' by (simp add: EvictM_def ih)
    moreover have "RemoveM r (int v) = Inr r'"
      using r' wf_ev(4,5)[OF wfc v(2)] ib
      by (simp add: RemoveM_def IsValidFrameId_def ev_def)
    ultimately show ?thesis using spec by blast
  next
    case False
    then have mi: "m = complete_histories r" by (simp add: m_def)
    from False inc have noinc: "keyed ?c False = {}" by simp
    have allk: "\<And>i. i \<in> set ?E \<Longrightarrow> length (history ?c ! i) = k ?c"
    proof (rule ccontr)
      fix i assume "i \<in> set ?E" "length (history ?c ! i) \<noteq> k ?c"
      then have "(last (history ?c ! i), int i) \<in> keyed ?c False" by (auto simp: keyed_def)
      with noinc show False by simp
    qed
    with pin com mi obtain v where v: "p = (last (history ?c ! v), int v)" "v \<in> set ?E"
      by (auto simp: keyed_def)
    have min: "\<forall>i\<in>set ?E. last (history ?c ! v) \<le> last (history ?c ! i)"
    proof
      fix i assume i: "i \<in> set ?E"
      then have "(last (history ?c ! i), int i) \<in> set m"
        using com mi allk by (auto simp: keyed_def)
      moreover have "sorted_wrt (<) (map fst (p # ps))" using srt(1) mi m by metis
      ultimately have "fst p \<le> fst (last (history ?c ! i), int i)"
        unfolding m by (rule hd_least[rotated])
      then show "last (history ?c ! v) \<le> last (history ?c ! i)" using v(1) by simp
    qed
    have spec: "Evict_spec ?c v"
      unfolding Evict_spec_def using v(2) allk min by auto
    have ib: "in_bounds ?c (int v)" "history ?c ! v \<noteq> []"
      using wf_ev(6,1)[OF wfc v(2)] by simp_all
    then obtain r' where r': "RemoveInternalM r (int v) = Inr r'"
      by (simp add: RemoveInternalM_def Let_def)
    have ih: "complete_histories r = (last (history ?c ! v), int v) # ps"
      "incomplete_histories r = []"
      using mi m v(1) False by metis+
    have "EvictM r = Inr (Some (int v), r')"
      using cs r' by (simp add: EvictM_def ih)
    moreover have "RemoveM r (int v) = Inr r'"
      using r' wf_ev(4,5)[OF wfc v(2)] ib
      by (simp add: RemoveM_def IsValidFrameId_def ev_def)
    ultimately show ?thesis using spec by blast
  qed
qed


subsection \<open>The operations keep the maps in step with the histories\<close>

lemma set_map_erase: "set (map_erase m a) = {p \<in> set m. fst p \<noteq> a}"
  by (auto simp: map_erase_def)

lemma sorted_map_erase:
  "sorted_wrt (<) (map fst m) \<Longrightarrow> sorted_wrt (<) (map fst (map_erase m a))"
  by (induction m) (auto simp: map_erase_def)

lemma set_map_set:
  "sorted_wrt (<) (map fst m) \<Longrightarrow>
   set (map_set m a v) = insert (a, v) {p \<in> set m. fst p \<noteq> a}"
  by (induction m) (auto simp: less_imp_neq)

lemma sorted_map_set:
  "sorted_wrt (<) (map fst m) \<Longrightarrow> sorted_wrt (<) (map fst (map_set m a v))"
proof (induction m)
  case Nil
  then show ?case by simp
next
  case (Cons p ps)
  then have s: "sorted_wrt (<) (map fst ps)" and lt: "\<forall>q \<in> set ps. fst p < fst q" by auto
  show ?case
  proof (cases "a < fst p")
    case True
    with Cons.prems lt show ?thesis by (auto intro: less_trans)
  next
    case False
    show ?thesis
    proof (cases "a = fst p")
      case True
      with Cons.prems show ?thesis by auto
    next
      case ne: False
      with False have "fst p < a" by simp
      with False ne lt Cons.IH[OF s] set_map_set[OF s, of a v] show ?thesis by auto
    qed
  qed
qed

lemma keyed_split:
  "f < replacer_size c \<Longrightarrow> keyed c b = own c f b \<union> others c f b"
  by (auto simp: keyed_def own_def others_def set_evictable_frames)

lemma others_cong:
  assumes "replacer_size c' = replacer_size c" "k c' = k c"
    "\<And>i. i < replacer_size c \<Longrightarrow> i \<noteq> f \<Longrightarrow>
       history c' ! i = history c ! i \<and> allocated c' ! i = allocated c ! i \<and>
       evictable c' ! i = evictable c ! i"
  shows "others c' f b = others c f b"
  using assms by (auto simp: others_def ev_def)

lemma others_fresh:
  assumes wf: "wf_replacer c" and dj: "stamps_disjoint c" and f: "f < replacer_size c"
    and p: "p \<in> others c f b"
  shows "fst p \<notin> set (history c ! f)" "fst p < current_timestamp c"
proof -
  from p obtain i where i: "i < replacer_size c" "i \<noteq> f" "ev c i"
    "p = (last (history c ! i), int i)"
    by (auto simp: others_def)
  then have ie: "i \<in> set (evictable_frames c)" by (simp add: set_evictable_frames)
  have ne: "history c ! i \<noteq> []" using wf_ev(1)[OF wf ie] .
  then have "last (history c ! i) \<in> set (history c ! i)" by simp
  moreover have "set (history c ! i) \<inter> set (history c ! f) = {}"
    using dj i(1,2) f by (simp add: stamps_disjoint_def)
  ultimately show "fst p \<notin> set (history c ! f)" using i(4) by auto
  show "fst p < current_timestamp c" using wf_ev(3)[OF wf ie] i(4) by simp
qed

lemma drop_own:
  assumes "S = A \<union> B" "\<forall>p \<in> B. fst p \<noteq> a" "\<forall>p \<in> A. fst p = a"
  shows "{p \<in> S. fst p \<noteq> a} = B"
  using assms by auto

lemma keep_all:
  assumes "\<forall>p \<in> B. fst p \<noteq> a"
  shows "{p \<in> B. fst p \<noteq> a} = B"
  using assms by auto


lemma wfM_update:
  assumes "wf_replacer (core r')" "stamps_disjoint (core r')"
    and f: "f < replacer_size (core r)" and ag: "agree_off (core r') (core r) f"
    and "sorted_wrt (<) (map fst (complete_histories r'))"
    and "sorted_wrt (<) (map fst (incomplete_histories r'))"
    and "set (complete_histories r') = own (core r') f True \<union> others (core r) f True"
    and "set (incomplete_histories r') = own (core r') f False \<union> others (core r) f False"
  shows "wf_replacerM r'"
proof -
  have o: "\<And>b. others (core r') f b = others (core r) f b"
    using ag by (intro others_cong) (auto simp: agree_off_def)
  have f': "f < replacer_size (core r')" using f ag by (simp add: agree_off_def)
  show ?thesis
    using assms by (simp add: wf_replacerM_def keyed_split[OF f'] o)
qed

lemma dj_update:
  assumes dj: "stamps_disjoint c" and ag: "agree_off c' c f"
    and sub: "set (history c' ! f) \<subseteq> set (history c ! f) \<union> T"
    and T: "\<And>i. i < replacer_size c \<Longrightarrow> i \<noteq> f \<Longrightarrow> set (history c ! i) \<inter> T = {}"
  shows "stamps_disjoint c'"
  unfolding stamps_disjoint_def
proof (intro ballI impI)
  fix i j assume ij: "i \<in> set [0..<replacer_size c']" "j \<in> set [0..<replacer_size c']" "i \<noteq> j"
  then have lt: "i < replacer_size c" "j < replacer_size c"
    using ag by (auto simp: agree_off_def)
  have d: "set (history c ! i) \<inter> set (history c ! j) = {}"
    using dj lt ij(3) by (simp add: stamps_disjoint_def)
  show "set (history c' ! i) \<inter> set (history c' ! j) = {}"
  proof (cases "i = f")
    case True
    then have j: "history c' ! j = history c ! j" using ag lt ij(3) by (auto simp: agree_off_def)
    have "set (history c ! j) \<inter> T = {}" using T[OF lt(2)] ij(3) True by simp
    with d sub True j show ?thesis by auto
  next
    case False
    then have i: "history c' ! i = history c ! i" using ag lt by (auto simp: agree_off_def)
    show ?thesis
    proof (cases "j = f")
      case True
      have "set (history c ! i) \<inter> T = {}" using T[OF lt(1)] False by simp
      with d sub True i show ?thesis by auto
    next
      case jf: False
      then have "history c' ! j = history c ! j" using ag lt by (auto simp: agree_off_def)
      with i d show ?thesis by simp
    qed
  qed
qed

lemma wfM_parts:
  assumes "wf_replacerM r" "f < replacer_size (core r)"
  shows "wf_replacer (core r)" "stamps_disjoint (core r)"
    "sorted_wrt (<) (map fst (complete_histories r))"
    "sorted_wrt (<) (map fst (incomplete_histories r))"
    "set (complete_histories r) = own (core r) f True \<union> others (core r) f True"
    "set (incomplete_histories r) = own (core r) f False \<union> others (core r) f False"
  using assms by (simp_all add: wf_replacerM_def keyed_split)

lemma core_RemoveInternalM:
  "RemoveInternalM r fid = Inr r' \<Longrightarrow> RemoveInternal (core r) fid = Inr (core r')"
  by (auto simp: RemoveInternalM_def RemoveInternal_def Let_def split: if_splits)

lemma wfM_RemoveInternalM:
  assumes wf: "wf_replacerM r" and f: "f \<in> set (evictable_frames (core r))"
    and R: "RemoveInternalM r (int f) = Inr r'"
  shows "wf_replacerM r'"
proof -
  let ?c = "core r"
  let ?h = "history ?c ! f"
  have fn: "f < replacer_size ?c" using f by (simp add: set_evictable_frames)
  note P = wfM_parts[OF wf fn]
  have len: "length (history ?c) = replacer_size ?c" "length (allocated ?c) = replacer_size ?c"
    "length (evictable ?c) = replacer_size ?c"
    using P(1) by (auto simp: wf_replacer_def)
  have ne: "?h \<noteq> []" using wf_ev(1)[OF P(1) f] .
  define c' where "c' = ?c\<lparr>history := (history ?c)[f := []],
                            evictable := (evictable ?c)[f := False],
                            allocated := (allocated ?c)[f := False],
                            curr_size := size_t_sub (curr_size ?c) 1\<rparr>"
  have r': "r' = r\<lparr>complete_histories := map_erase (complete_histories r) (last ?h),
                incomplete_histories := map_erase (incomplete_histories r) (last ?h),
                core := c'\<rparr>"
    using R wf_ev(6)[OF P(1) f] ne by (simp add: RemoveInternalM_def Let_def c'_def)
  have cr: "core r' = c'" by (simp add: r')
  have wfc: "wf_replacer (core r')"
    using wf_RemoveInternal[OF P(1) f core_RemoveInternalM[OF R]] .
  have ag: "agree_off (core r') ?c f" by (simp add: cr c'_def agree_off_def)
  have dj: "stamps_disjoint (core r')"
    by (rule dj_update[OF P(2) ag, where T = "{}"]) (simp_all add: cr c'_def len fn)
  have fr: "\<And>b. \<forall>p \<in> others ?c f b. fst p \<noteq> last ?h"
    using others_fresh(1)[OF P(1) P(2) fn] ne last_in_set by metis
  have ow: "\<And>b. \<forall>p \<in> own ?c f b. fst p = last ?h" by (simp add: own_def)
  have own': "\<And>b. own c' f b = {}" by (simp add: c'_def own_def ev_def len fn)
  show ?thesis
  proof (rule wfM_update[OF wfc dj fn ag])
    show "sorted_wrt (<) (map fst (complete_histories r'))"
      using sorted_map_erase[OF P(3)] by (simp add: r')
    show "sorted_wrt (<) (map fst (incomplete_histories r'))"
      using sorted_map_erase[OF P(4)] by (simp add: r')
    show "set (complete_histories r') = own (core r') f True \<union> others ?c f True"
      using drop_own[OF P(5) fr ow] by (simp add: r' set_map_erase own')
    show "set (incomplete_histories r') = own (core r') f False \<union> others ?c f False"
      using drop_own[OF P(6) fr ow] by (simp add: r' set_map_erase own')
  qed
qed


lemma core_RemoveM:
  "RemoveM r fid = Inr r' \<Longrightarrow> Remove (core r) fid = Inr (core r')"
  by (auto simp: RemoveM_def Remove_def core_RemoveInternalM split: if_splits)

lemma wfM_RemoveM:
  assumes wf: "wf_replacerM r" and R: "RemoveM r fid = Inr r'"
  shows "wf_replacerM r'"
proof (cases "IsValidFrameId (core r) fid \<and> in_bounds (core r) fid \<and> allocated (core r) ! nat fid")
  case False
  with R have "r' = r" by (auto simp: RemoveM_def split: if_splits)
  with wf show ?thesis by simp
next
  case True
  with R have e: "evictable (core r) ! nat fid" and ri: "RemoveInternalM r fid = Inr r'"
    by (auto simp: RemoveM_def split: if_splits)
  have wfc: "wf_replacer (core r)" using wf by (simp add: wf_replacerM_def)
  from True have "0 \<le> fid" "nat fid < length (history (core r))"
    by (auto simp: in_bounds_def)
  then have "nat fid \<in> set (evictable_frames (core r))" "int (nat fid) = fid"
    using True e wfc by (auto simp: set_evictable_frames ev_def wf_replacer_def)
  with wfM_RemoveInternalM[OF wf, of "nat fid" r'] ri show ?thesis by simp
qed

lemma wfM_EvictM:
  assumes wf: "wf_replacerM r" and R: "EvictM r = Inr (res, r')"
  shows "wf_replacerM r'"
proof (cases "evictable_frames (core r) = []")
  case True
  with wf have "curr_size (core r) = 0" by (simp add: wf_replacerM_def wf_replacer_def)
  with R wf show ?thesis by (simp add: EvictM_def)
next
  case False
  from EvictM_nonempty[OF wf False] R obtain v where
    "RemoveM r (int v) = Inr r'" by auto
  from wfM_RemoveM[OF wf this] show ?thesis .
qed

lemma wfM_new: "1 \<le> kk \<Longrightarrow> wf_replacerM (LRUKReplacerM_new n kk)"
  using wf_new[of kk n]
  by (simp add: wf_replacerM_def LRUKReplacerM_new_def keyed_def stamps_disjoint_def)
    (simp add: LRUKReplacer_new_def evictable_frames_def)

lemma core_SetEvictableM:
  "SetEvictableM r fid b = Inr r' \<Longrightarrow> SetEvictable (core r) fid b = Inr (core r')"
  by (auto simp: SetEvictableM_def SetEvictable_def Let_def split: if_splits)

lemma wfM_SetEvictableM:
  assumes wf: "wf_replacerM r" and R: "SetEvictableM r fid b = Inr r'"
  shows "wf_replacerM r'"
proof (cases "IsValidFrameId (core r) fid \<and> in_bounds (core r) fid \<and> allocated (core r) ! nat fid")
  case False
  with R have "r' = r" by (auto simp: SetEvictableM_def Let_def split: if_splits)
  with wf show ?thesis by simp
next
  case True
  let ?c = "core r"
  let ?f = "nat fid"
  let ?h = "history ?c ! ?f"
  let ?e = "evictable ?c ! ?f"
  have wfc0: "wf_replacer ?c" using wf by (simp add: wf_replacerM_def)
  have len: "length (history ?c) = replacer_size ?c" "length (allocated ?c) = replacer_size ?c"
    "length (evictable ?c) = replacer_size ?c"
    using wfc0 by (auto simp: wf_replacer_def)
  have fn: "?f < replacer_size ?c" and f0: "0 \<le> fid"
    using True len by (auto simp: in_bounds_def)
  note P = wfM_parts[OF wf fn]
  have ok: "frame_ok ?c ?f" using wfc0 fn by (simp add: wf_replacer_def)
  have ne: "?h \<noteq> []" using ok True by (simp add: frame_ok_def)
  have al: "allocated ?c ! ?f" using True by simp
  have wfc: "wf_replacer (core r')"
    using wf_SetEvictable[OF wfc0 core_SetEvictableM[OF R]] .
  have c': "history (core r') = history ?c" "allocated (core r') = allocated ?c"
    "evictable (core r') = (evictable ?c)[?f := b]"
    "replacer_size (core r') = replacer_size ?c" "k (core r') = k ?c"
    using R True ne by (auto simp: SetEvictableM_def Let_def split: if_splits)
  have cm: "complete_histories r' =
      (if \<not> ?e \<and> b \<and> length ?h = k ?c then map_set (complete_histories r) (last ?h) fid
       else if ?e \<and> \<not> b then map_erase (complete_histories r) (last ?h)
       else complete_histories r)"
    using R True ne by (auto simp: SetEvictableM_def Let_def split: if_splits)
  have im: "incomplete_histories r' =
      (if \<not> ?e \<and> b \<and> length ?h \<noteq> k ?c then map_set (incomplete_histories r) (last ?h) fid
       else if ?e \<and> \<not> b then map_erase (incomplete_histories r) (last ?h)
       else incomplete_histories r)"
    using R True ne by (auto simp: SetEvictableM_def Let_def split: if_splits)
  have ag: "agree_off (core r') ?c ?f" by (simp add: c' agree_off_def)
  have dj: "stamps_disjoint (core r')"
    by (rule dj_update[OF P(2) ag, where T = "{}"]) (simp_all add: c')
  have fr: "\<And>bb. \<forall>p \<in> others ?c ?f bb. fst p \<noteq> last ?h"
    using others_fresh(1)[OF P(1) P(2) fn] ne last_in_set by metis
  have ow: "\<And>bb. \<forall>p \<in> own ?c ?f bb. fst p = last ?h" by (simp add: own_def)
  have own0: "\<And>bb. own ?c ?f bb =
      (if ?e \<and> (length ?h = k ?c) = bb then {(last ?h, fid)} else {})"
    using al by (simp add: own_def ev_def f0)
  have own': "\<And>bb. own (core r') ?f bb =
      (if b \<and> (length ?h = k ?c) = bb then {(last ?h, fid)} else {})"
    using al fn by (simp add: own_def ev_def f0 c' len)
  show ?thesis
  proof (rule wfM_update[OF wfc dj fn ag])
    show "sorted_wrt (<) (map fst (complete_histories r'))"
      using sorted_map_erase[OF P(3)] sorted_map_set[OF P(3)] P(3) by (simp add: cm)
    show "sorted_wrt (<) (map fst (incomplete_histories r'))"
      using sorted_map_erase[OF P(4)] sorted_map_set[OF P(4)] P(4) by (simp add: im)
    show "set (complete_histories r') = own (core r') ?f True \<union> others ?c ?f True"
      apply (simp add: cm set_map_erase set_map_set[OF P(3)] drop_own[OF P(5) fr ow] own')
      apply (simp add: P(5) own0)
      done
    show "set (incomplete_histories r') = own (core r') ?f False \<union> others ?c ?f False"
      apply (simp add: im set_map_erase set_map_set[OF P(4)] drop_own[OF P(6) fr ow] own')
      apply (simp add: P(6) own0)
      done
  qed
qed


lemma core_RecordAccessM:
  "RecordAccessM r fid = Inr r' \<Longrightarrow> RecordAccess (core r) fid = Inr (core r')"
  by (auto simp: RecordAccessM_def RecordAccess_def Let_def split: if_splits)

lemma wfM_RecordAccessM:
  assumes wf: "wf_replacerM r" and R: "RecordAccessM r fid = Inr r'"
  shows "wf_replacerM r'"
proof -
  let ?c = "core r"
  let ?f = "nat fid"
  let ?old = "history ?c ! ?f"
  let ?ts = "current_timestamp ?c"
  let ?new = "?ts # ?old"
  let ?trim = "if length ?new > k ?c then butlast ?new else ?new"
  have wfc0: "wf_replacer ?c" using wf by (simp add: wf_replacerM_def)
  have len: "length (history ?c) = replacer_size ?c" "length (allocated ?c) = replacer_size ?c"
    "length (evictable ?c) = replacer_size ?c" and k1: "1 \<le> k ?c"
    using wfc0 by (auto simp: wf_replacer_def)
  from R have v: "IsValidFrameId ?c fid" "in_bounds ?c fid"
    by (auto simp: RecordAccessM_def split: if_splits)
  have fn: "?f < replacer_size ?c" and f0: "0 \<le> fid"
    using v len by (auto simp: in_bounds_def)
  note P = wfM_parts[OF wf fn]
  have ok: "\<And>i. i < replacer_size ?c \<Longrightarrow> frame_ok ?c i" using wfc0 by (simp add: wf_replacer_def)
  have lek: "length ?old \<le> k ?c" using ok[OF fn] by (simp add: frame_ok_def)
  have evne: "ev ?c ?f \<Longrightarrow> ?old \<noteq> []" using ok[OF fn] by (simp add: frame_ok_def ev_def)
  have wfc: "wf_replacer (core r')"
    using wf_RecordAccess[OF wfc0 core_RecordAccessM[OF R]] .
  have c': "history (core r') = (history ?c)[?f := ?trim]"
    "replacer_size (core r') = replacer_size ?c" "k (core r') = k ?c"
    "allocated (core r') = (if allocated ?c ! ?f then allocated ?c else (allocated ?c)[?f := True])"
    "evictable (core r') = (if allocated ?c ! ?f then evictable ?c else (evictable ?c)[?f := False])"
  proof -
    define cc where "cc = core r'"
    have "RecordAccess ?c fid = Inr cc"
      using core_RecordAccessM[OF R] by (simp add: cc_def)
    then have "history cc = (history ?c)[?f := ?trim] \<and>
      replacer_size cc = replacer_size ?c \<and> k cc = k ?c \<and>
      allocated cc = (if allocated ?c ! ?f then allocated ?c else (allocated ?c)[?f := True]) \<and>
      evictable cc = (if allocated ?c ! ?f then evictable ?c else (evictable ?c)[?f := False])"
      using v fn len
      by (auto simp: RecordAccess_def Let_def split: if_splits)
    then show "history (core r') = (history ?c)[?f := ?trim]"
      "replacer_size (core r') = replacer_size ?c" "k (core r') = k ?c"
      "allocated (core r') = (if allocated ?c ! ?f then allocated ?c else (allocated ?c)[?f := True])"
      "evictable (core r') = (if allocated ?c ! ?f then evictable ?c else (evictable ?c)[?f := False])"
      by (simp_all add: cc_def)
  qed
  have ag: "agree_off (core r') ?c ?f" by (simp add: c' agree_off_def)
  have sub: "set (history (core r') ! ?f) \<subseteq> set ?old \<union> {?ts}"
    using fn len by (auto simp: c' dest: in_set_butlastD)
  have dj: "stamps_disjoint (core r')"
  proof (rule dj_update[OF P(2) ag sub])
    fix i assume "i < replacer_size ?c" "i \<noteq> ?f"
    then show "set (history ?c ! i) \<inter> {?ts} = {}"
      using ok[of i] by (auto simp: frame_ok_def)
  qed
  have ev': "ev (core r') ?f = ev ?c ?f"
    using fn len by (simp add: ev_def c')
  have hf': "history (core r') ! ?f = ?trim" using fn len by (simp add: c')
  have own0: "\<And>bb. own ?c ?f bb =
      (if ev ?c ?f \<and> (length ?old = k ?c) = bb then {(last ?old, fid)} else {})"
    using f0 by (simp add: own_def)
  have own': "\<And>bb. own (core r') ?f bb =
      (if ev ?c ?f \<and> (length ?trim = k ?c) = bb then {(last ?trim, fid)} else {})"
    using f0 by (simp add: own_def ev' hf' c'(3))
  have fr: "\<And>bb. ?old \<noteq> [] \<Longrightarrow> \<forall>p \<in> others ?c ?f bb. fst p \<noteq> last ?old"
    using others_fresh(1)[OF P(1) P(2) fn] last_in_set by metis
  have fr': "\<And>bb. \<forall>p \<in> others ?c ?f bb. fst p \<noteq> last ?trim"
  proof
    fix bb p assume p: "p \<in> others ?c ?f bb"
    have "?trim \<noteq> []" using k1 by (auto simp: butlast_conv_take)
    then have "last ?trim \<in> set ?trim" by (rule last_in_set)
    moreover have "set ?trim \<subseteq> set ?old \<union> {?ts}" by (auto dest: in_set_butlastD)
    ultimately have "last ?trim \<in> set ?old \<union> {?ts}" by (rule subsetD[rotated])
    with others_fresh[OF P(1) P(2) fn p] show "fst p \<noteq> last ?trim" by auto
  qed
  have ow: "\<And>bb. \<forall>p \<in> own ?c ?f bb. fst p = last ?old" by (simp add: own_def)
  show ?thesis
  proof (cases "ev ?c ?f")
    case False
    then have m: "complete_histories r' = complete_histories r"
      "incomplete_histories r' = incomplete_histories r"
      using R v fn len by (auto simp: RecordAccessM_def Let_def ev_def split: if_splits)
    show ?thesis
      by (rule wfM_update[OF wfc dj fn ag]) (simp_all add: m P(3,4) own' False, simp_all add: P(5,6) own0 False)
  next
    case True
    then have e: "allocated ?c ! ?f" "evictable ?c ! ?f" by (simp_all add: ev_def)
    have ne: "?old \<noteq> []" using evne[OF True] .
    have lh: "last ?new = last ?old" using ne by simp
    consider (over) "length ?old = k ?c" | (full) "Suc (length ?old) = k ?c"
      | (under) "Suc (length ?old) < k ?c"
      using lek by linarith
    then show ?thesis
    proof cases
      case over
      have m: "complete_histories r' =
          map_set (map_erase (complete_histories r) (last ?old)) (last ?trim) fid"
        "incomplete_histories r' = incomplete_histories r"
        using R v e over ne by (auto simp: RecordAccessM_def Let_def split: if_splits)
      have s1: "sorted_wrt (<) (map fst (map_erase (complete_histories r) (last ?old)))"
        using sorted_map_erase[OF P(3)] .
      have lk: "length ?trim = k ?c" using over k1 by auto
      show ?thesis
      proof (rule wfM_update[OF wfc dj fn ag])
        show "sorted_wrt (<) (map fst (complete_histories r'))"
          using sorted_map_set[OF s1] by (simp only: m)
        show "sorted_wrt (<) (map fst (incomplete_histories r'))"
          using P(4) by (simp only: m)
        have "set (complete_histories r') = insert (last ?trim, fid) (others ?c ?f True)"
          unfolding m set_map_set[OF s1] set_map_erase drop_own[OF P(5) fr[OF ne] ow]
            keep_all[OF fr'] ..
        then show "set (complete_histories r') = own (core r') ?f True \<union> others ?c ?f True"
          using True lk by (simp only: own' if_True simp_thms insert_is_Un[symmetric])
        show "set (incomplete_histories r') = own (core r') ?f False \<union> others ?c ?f False"
          using True lk over by (simp add: m P(6) own0 own')
      qed
    next
      case full
      have m: "complete_histories r' = map_set (complete_histories r) (last ?old) fid"
        "incomplete_histories r' = map_erase (incomplete_histories r) (last ?old)"
        using R v e full ne length_greater_0_conv[of ?old]
        by (auto simp: RecordAccessM_def Let_def simp del: length_greater_0_conv split: if_splits)
      have h': "?trim = ?new" using full by simp
      show ?thesis
      proof (rule wfM_update[OF wfc dj fn ag])
        show "sorted_wrt (<) (map fst (complete_histories r'))"
          using sorted_map_set[OF P(3)] by (simp only: m)
        show "sorted_wrt (<) (map fst (incomplete_histories r'))"
          using sorted_map_erase[OF P(4)] by (simp only: m)
        have "set (complete_histories r') = insert (last ?old, fid) (others ?c ?f True)"
          unfolding m set_map_set[OF P(3)] drop_own[OF P(5) fr[OF ne] ow] ..
        then show "set (complete_histories r') = own (core r') ?f True \<union> others ?c ?f True"
          using True full ne by (simp add: own')
        have "set (incomplete_histories r') = others ?c ?f False"
          unfolding m set_map_erase drop_own[OF P(6) fr[OF ne] ow] ..
        then show "set (incomplete_histories r') = own (core r') ?f False \<union> others ?c ?f False"
          using True full ne by (simp add: own')
      qed
    next
      case under
      have m: "complete_histories r' = complete_histories r"
        "incomplete_histories r' = map_set (incomplete_histories r) (last ?old) fid"
        using R v e under ne by (auto simp: RecordAccessM_def Let_def split: if_splits)
      show ?thesis
      proof (rule wfM_update[OF wfc dj fn ag])
        show "sorted_wrt (<) (map fst (complete_histories r'))"
          using P(3) by (simp only: m)
        show "sorted_wrt (<) (map fst (incomplete_histories r'))"
          using sorted_map_set[OF P(4)] by (simp only: m)
        show "set (complete_histories r') = own (core r') ?f True \<union> others ?c ?f True"
          using True under by (simp add: m P(5) own0 own')
        have "set (incomplete_histories r') = insert (last ?old, fid) (others ?c ?f False)"
          unfolding m set_map_set[OF P(4)] drop_own[OF P(6) fr[OF ne] ow] ..
        then show "set (incomplete_histories r') = own (core r') ?f False \<union> others ?c ?f False"
          using True under ne by (simp add: own')
      qed
    qed
  qed
qed


text \<open>
  \<open>example_replacerM\<close> is the state after the accesses \<open>1, 2, 3, 4, 4, 1, 3\<close> with frames
  1, 2 and 4 made evictable after their first access.
\<close>

lemma example_replacerM_reached:
  "(case RecordAccessM (LRUKReplacerM_new 5 2) 1 of Inl e \<Rightarrow> Inl e | Inr r1 \<Rightarrow>
    case SetEvictableM r1 1 True of Inl e \<Rightarrow> Inl e | Inr r2 \<Rightarrow>
    case RecordAccessM r2 2 of Inl e \<Rightarrow> Inl e | Inr r3 \<Rightarrow>
    case SetEvictableM r3 2 True of Inl e \<Rightarrow> Inl e | Inr r4 \<Rightarrow>
    case RecordAccessM r4 3 of Inl e \<Rightarrow> Inl e | Inr r5 \<Rightarrow>
    case RecordAccessM r5 4 of Inl e \<Rightarrow> Inl e | Inr r6 \<Rightarrow>
    case SetEvictableM r6 4 True of Inl e \<Rightarrow> Inl e | Inr r7 \<Rightarrow>
    case RecordAccessM r7 4 of Inl e \<Rightarrow> Inl e | Inr r8 \<Rightarrow>
    case RecordAccessM r8 1 of Inl e \<Rightarrow> Inl e | Inr r9 \<Rightarrow>
    RecordAccessM r9 3) = Inr example_replacerM"
  by (simp add: RecordAccessM_def SetEvictableM_def LRUKReplacerM_new_def LRUKReplacer_new_def
      IsValidFrameId_def in_bounds_def map_erase_def example_replacerM_def example_replacer_def
      eval_nat_numeral Let_def)

lemma wfM_example: "wf_replacerM example_replacerM"
  by (simp add: wf_replacerM_def example_replacerM_def wf_replacer_def example_replacer_def
      evictable_frames_def frame_ok_def upt_rec stamps_disjoint_def keyed_def)

lemma EvictM_example:
  "EvictM example_replacerM =
     Inr (Some 2, \<lparr>core = example_replacer\<lparr>history := [[], [5, 0], [], [6, 2], [4, 3]],
                     allocated := [False, True, False, True, True],
                     evictable := [False, True, False, False, True], curr_size := 2\<rparr>,
                   complete_histories = [(0, 1), (3, 4)], incomplete_histories = []\<rparr>)"
  by (simp add: EvictM_def example_replacerM_def example_replacer_def RemoveInternalM_def
      in_bounds_def map_erase_def size_t_sub_def)

text \<open>
  Claim C6. In every state the operations can produce, \<open>Evict\<close> returns \<open>false\<close> (and
  changes nothing) exactly when no frame is evictable. Otherwise it returns \<open>true\<close> with
  a victim chosen by the policy \<open>Evict_spec\<close>: an evictable frame with fewer than \<open>k\<close>
  recorded accesses and the smallest earliest access if there is one, else the frame whose
  \<open>k\<close>-th most recent access is smallest; the state after is the one \<open>Remove\<close> of the
  victim gives. This holds of the scanning variant (\<open>Evict\<close>) and of the variant with
  two maps (\<open>EvictM\<close>).
\<close>

theorem Evict_policy:
  "(wf_replacer r \<longrightarrow>
      (Evict r = Inr (None, r) \<longleftrightarrow> length (evictable_frames r) = 0) \<and>
      (length (evictable_frames r) \<noteq> 0 \<longrightarrow>
         (\<exists>v r'. Evict r = Inr (Some (int v), r') \<and> Evict_spec r v \<and>
                  Remove r (int v) = Inr r'))) \<and>
   (wf_replacerM m \<longrightarrow>
      (EvictM m = Inr (None, m) \<longleftrightarrow> length (evictable_frames (core m)) = 0) \<and>
      (length (evictable_frames (core m)) \<noteq> 0 \<longrightarrow>
         (\<exists>v m'. EvictM m = Inr (Some (int v), m') \<and> Evict_spec (core m) v \<and>
                  RemoveM m (int v) = Inr m')))"
proof (intro conjI impI)
  assume wf: "wf_replacer r"
  show "Evict r = Inr (None, r) \<longleftrightarrow> length (evictable_frames r) = 0"
  proof (cases "evictable_frames r = []")
    case True
    with wf have "curr_size r = 0" by (simp add: wf_replacer_def)
    with True show ?thesis by (simp add: Evict_def)
  next
    case False
    from Evict_nonempty[OF wf False] False show ?thesis by auto
  qed
  assume "length (evictable_frames r) \<noteq> 0"
  then have "evictable_frames r \<noteq> []" by simp
  from Evict_nonempty[OF wf this]
  show "\<exists>v r'. Evict r = Inr (Some (int v), r') \<and> Evict_spec r v \<and> Remove r (int v) = Inr r'" .
next
  assume wf: "wf_replacerM m"
  show "EvictM m = Inr (None, m) \<longleftrightarrow> length (evictable_frames (core m)) = 0"
  proof (cases "evictable_frames (core m) = []")
    case True
    with wf have "curr_size (core m) = 0" by (simp add: wf_replacerM_def wf_replacer_def)
    with True show ?thesis by (simp add: EvictM_def)
  next
    case False
    from EvictM_nonempty[OF wf False] False show ?thesis by auto
  qed
  assume "length (evictable_frames (core m)) \<noteq> 0"
  then have "evictable_frames (core m) \<noteq> []" by simp
  from EvictM_nonempty[OF wf this]
  show "\<exists>v m'. EvictM m = Inr (Some (int v), m') \<and> Evict_spec (core m) v \<and>
          RemoveM m (int v) = Inr m'" .
qed

theorem Evict_policy_witness:
  "wf_replacer example_replacer \<and> length (evictable_frames example_replacer) \<noteq> 0 \<and>
   Evict_spec example_replacer 2 \<and>
   (\<exists>v r'. Evict example_replacer = Inr (Some (int v), r') \<and> Evict_spec example_replacer v \<and>
            Remove example_replacer (int v) = Inr r') \<and>
   Evict example_replacer =
     Inr (Some 2, example_replacer\<lparr>history := [[], [5, 0], [], [6, 2], [4, 3]],
                     allocated := [False, True, False, True, True],
                     evictable := [False, True, False, False, True], curr_size := 2\<rparr>) \<and>
   wf_replacer (LRUKReplacer_new 5 2) \<and>
   Evict (LRUKReplacer_new 5 2) = Inr (None, LRUKReplacer_new 5 2) \<and>
   wf_replacerM example_replacerM \<and>
   (\<exists>v m'. EvictM example_replacerM = Inr (Some (int v), m') \<and>
            Evict_spec (core example_replacerM) v \<and>
            RemoveM example_replacerM (int v) = Inr m') \<and>
   EvictM example_replacerM =
     Inr (Some 2, \<lparr>core = example_replacer\<lparr>history := [[], [5, 0], [], [6, 2], [4, 3]],
                     allocated := [False, True, False, True, True],
                     evictable := [False, True, False, False, True], curr_size := 2\<rparr>,
                   complete_histories = [(0, 1), (3, 4)], incomplete_histories = []\<rparr>) \<and>
   wf_replacerM (LRUKReplacerM_new 5 2) \<and>
   EvictM (LRUKReplacerM_new 5 2) = Inr (None, LRUKReplacerM_new 5 2)"
proof -
  have wf: "wf_replacer example_replacer"
    by (simp add: wf_replacer_def example_replacer_def evictable_frames_def frame_ok_def upt_rec)
  have ne: "length (evictable_frames example_replacer) \<noteq> 0"
    by (simp add: example_replacer_def evictable_frames_def upt_rec)
  have sp: "Evict_spec example_replacer 2"
    by (simp add: Evict_spec_def example_replacer_def evictable_frames_def upt_rec)
  have ev: "Evict example_replacer =
     Inr (Some 2, example_replacer\<lparr>history := [[], [5, 0], [], [6, 2], [4, 3]],
                     allocated := [False, True, False, True, True],
                     evictable := [False, True, False, False, True], curr_size := 2\<rparr>)"
    by (simp add: Evict_def example_replacer_def upt_rec size_t_sub_def RemoveInternal_def
        in_bounds_def)
  have wf0: "wf_replacer (LRUKReplacer_new 5 2)"
    by (simp add: wf_new)
  have e0: "length (evictable_frames (LRUKReplacer_new 5 2)) = 0"
    by (simp add: LRUKReplacer_new_def evictable_frames_def)
  have wfm: "wf_replacerM example_replacerM" by (rule wfM_example)
  have nem: "length (evictable_frames (core example_replacerM)) \<noteq> 0"
    using ne by (simp add: example_replacerM_def)
  have wfm0: "wf_replacerM (LRUKReplacerM_new 5 2)"
    by (simp add: wfM_new)
  have em0: "length (evictable_frames (core (LRUKReplacerM_new 5 2))) = 0"
    using e0 by (simp add: LRUKReplacerM_new_def)
  note a = Evict_policy[where r = example_replacer and m = example_replacerM]
  note b = Evict_policy[where r = "LRUKReplacer_new 5 2" and m = "LRUKReplacerM_new 5 2"]
  from a wf ne have 1: "\<exists>v r'. Evict example_replacer = Inr (Some (int v), r') \<and>
      Evict_spec example_replacer v \<and> Remove example_replacer (int v) = Inr r'" by blast
  from a wfm nem have 2: "\<exists>v m'. EvictM example_replacerM = Inr (Some (int v), m') \<and>
      Evict_spec (core example_replacerM) v \<and> RemoveM example_replacerM (int v) = Inr m'"
    by blast
  from b wf0 e0 have 3: "Evict (LRUKReplacer_new 5 2) = Inr (None, LRUKReplacer_new 5 2)"
    by blast
  from b wfm0 em0 have 4: "EvictM (LRUKReplacerM_new 5 2) = Inr (None, LRUKReplacerM_new 5 2)"
    by blast
  from wf ne sp 1 ev wf0 3 wfm 2 EvictM_example wfm0 4 show ?thesis by blast
qed

text \<open>
  Claim C9, as the source has it. A frame id at or above \<open>num_frames\<close> makes
  \<open>RecordAccess\<close> and \<open>SetEvictable\<close> throw \<open>std::invalid_argument\<close>, while
  \<open>Remove\<close> returns without an exception and without a change; \<open>Remove\<close> of a
  frame that is allocated but not evictable throws \<open>std::invalid_argument\<close>. The two
  variants of the replacer agree in this.
\<close>

theorem replacer_invalid_frame_id:
  "(int (replacer_size (core m)) \<le> frame_id \<longrightarrow>
      RecordAccessM m frame_id = Inl (invalid_argument ''RecordAccess(): frame_id is invalid'') \<and>
      SetEvictableM m frame_id b = Inl (invalid_argument ''SetEvictable(): frame_id is invalid'') \<and>
      RemoveM m frame_id = Inr m) \<and>
   (IsValidFrameId (core m) frame_id \<and> in_bounds (core m) frame_id \<and>
    allocated (core m) ! nat frame_id \<and> \<not> evictable (core m) ! nat frame_id \<longrightarrow>
      RemoveM m frame_id = Inl (invalid_argument ''Remove(): Frame is not evictable'')) \<and>
   (int (replacer_size r) \<le> frame_id \<longrightarrow>
      RecordAccess r frame_id = Inl (invalid_argument ''RecordAccess(): frame_id is invalid'') \<and>
      SetEvictable r frame_id b = Inl (invalid_argument ''SetEvictable(): frame_id is invalid'') \<and>
      Remove r frame_id = Inr r) \<and>
   (IsValidFrameId r frame_id \<and> in_bounds r frame_id \<and>
    allocated r ! nat frame_id \<and> \<not> evictable r ! nat frame_id \<longrightarrow>
      Remove r frame_id = Inl (invalid_argument ''Remove(): Frame is not evictable''))"
  by (simp add: RecordAccessM_def SetEvictableM_def RemoveM_def RecordAccess_def
      SetEvictable_def Remove_def IsValidFrameId_def)

theorem Remove_invalid_frame_id_silent:
  "RemoveM (LRUKReplacerM_new 7 2) 7 = Inr (LRUKReplacerM_new 7 2) \<and>
   Remove (LRUKReplacer_new 7 2) 7 = Inr (LRUKReplacer_new 7 2)"
  by (simp add: RemoveM_def Remove_def IsValidFrameId_def LRUKReplacerM_new_def
      LRUKReplacer_new_def)

theorem replacer_invalid_frame_id_witness:
  "int (replacer_size (core example_replacerM)) \<le> 5 \<and>
   RecordAccessM example_replacerM 5 =
     Inl (invalid_argument ''RecordAccess(): frame_id is invalid'') \<and>
   SetEvictableM example_replacerM 5 True =
     Inl (invalid_argument ''SetEvictable(): frame_id is invalid'') \<and>
   RemoveM example_replacerM 5 = Inr example_replacerM \<and>
   IsValidFrameId (core example_replacerM) 3 \<and> in_bounds (core example_replacerM) 3 \<and>
   allocated (core example_replacerM) ! nat 3 \<and> \<not> evictable (core example_replacerM) ! nat 3 \<and>
   RemoveM example_replacerM 3 = Inl (invalid_argument ''Remove(): Frame is not evictable'') \<and>
   int (replacer_size example_replacer) \<le> 5 \<and>
   RecordAccess example_replacer 5 = Inl (invalid_argument ''RecordAccess(): frame_id is invalid'') \<and>
   SetEvictable example_replacer 5 True = Inl (invalid_argument ''SetEvictable(): frame_id is invalid'') \<and>
   Remove example_replacer 5 = Inr example_replacer \<and>
   IsValidFrameId example_replacer 3 \<and> in_bounds example_replacer 3 \<and>
   allocated example_replacer ! nat 3 \<and> \<not> evictable example_replacer ! nat 3 \<and>
   Remove example_replacer 3 = Inl (invalid_argument ''Remove(): Frame is not evictable'')"
proof -
  have a: "int (replacer_size example_replacer) \<le> 5"
    by (simp add: example_replacer_def)
  have b: "IsValidFrameId example_replacer 3 \<and> in_bounds example_replacer 3 \<and>
      allocated example_replacer ! nat 3 \<and> \<not> evictable example_replacer ! nat 3"
    by (simp add: example_replacer_def IsValidFrameId_def in_bounds_def numeral_3_eq_3)
  have c: "core example_replacerM = example_replacer"
    by (simp add: example_replacerM_def)
  from a b c
    replacer_invalid_frame_id[where m = example_replacerM and r = example_replacer
      and frame_id = 5 and b = True]
    replacer_invalid_frame_id[where m = example_replacerM and r = example_replacer
      and frame_id = 3 and b = True]
  show ?thesis by (simp only: simp_thms)
qed

section \<open>Properties of the buffer pool manager\<close>

lemma acquire_frame_next_page_id:
  "acquire_frame s = Inr (res, s') \<Longrightarrow> next_page_id s' = next_page_id s"
  by (auto simp: acquire_frame_def split: list.splits if_splits sum.splits option.splits prod.splits)

lemma pin_frame_next_page_id:
  "pin_frame s f pid = Inr s' \<Longrightarrow> next_page_id s' = next_page_id s"
  by (auto simp: pin_frame_def split: sum.splits)

lemma write_back_next_page_id: "next_page_id (write_back s f) = next_page_id s"
  by (simp add: write_back_def)

lemma UnpinPgImp_next_page_id:
  "UnpinPgImp s pid d = Inr (b, s') \<Longrightarrow> next_page_id s' = next_page_id s"
  by (auto simp: UnpinPgImp_def Let_def split: option.splits if_splits sum.splits)

lemma NewPgImp_next_page_id:
  assumes "NewPgImp s = Inr ((pid, res), s')"
  shows "pid = next_page_id s \<and> next_page_id s' = next_page_id s + 1"
  using assms
  by (auto simp: NewPgImp_def AllocatePage_def Let_def write_back_next_page_id
      dest!: acquire_frame_next_page_id pin_frame_next_page_id
      split: sum.splits option.splits prod.splits if_splits)

lemma NewPgImp_fails:
  assumes "free_list s = []" "Size (replacer s) = 0"
  shows "NewPgImp s = Inr ((next_page_id s, None), s\<lparr>next_page_id := next_page_id s + 1\<rparr>)"
  using assms by (simp add: NewPgImp_def AllocatePage_def acquire_frame_def Size_def)

lemmas pool_eval = BufferPoolManagerInstance_new_def NewPgImp_def AllocatePage_def acquire_frame_def
    pin_frame_def RecordAccess_def SetEvictable_def IsValidFrameId_def in_bounds_def LRUKReplacer_new_def
    frame_in_pool_def write_back_def INVALID_PAGE_ID_def Let_def UnpinPgImp_def Size_def Evict_def
    RemoveInternal_def size_t_sub_def FlushPgImp_def

lemma FlushPgImp_clears:
  assumes "page_table s pid = Some f" "frame_in_pool s f"
  shows "\<exists>s''. FlushPgImp s pid = Inr (True, s'') \<and> \<not> is_dirty (pages s'' ! nat f)"
  using assms by (simp add: FlushPgImp_def frame_in_pool_def)

lemma SetEvictable_true:
  assumes "IsValidFrameId r f" "in_bounds r f" "allocated r ! nat f"
  shows "\<exists>r'. SetEvictable r f True = Inr r' \<and> evictable r' ! nat f"
  using assms by (auto simp: SetEvictable_def Let_def in_bounds_def)

lemma UnpinPgImp_pinned:
  assumes pt: "page_table s pid = Some f" and fp: "frame_in_pool s f"
    and pc: "pin_count (pages s ! nat f) \<noteq> 0"
    and rp: "IsValidFrameId (replacer s) f" "in_bounds (replacer s) f"
      "allocated (replacer s) ! nat f"
  shows "\<exists>s'. UnpinPgImp s pid dirty = Inr (True, s') \<and>
            pin_count (pages s' ! nat f) = pin_count (pages s ! nat f) - 1 \<and>
            is_dirty (pages s' ! nat f) = (is_dirty (pages s ! nat f) \<or> dirty) \<and>
            (pin_count (pages s' ! nat f) = 0 \<longrightarrow>
               SetEvictable (replacer s) f True = Inr (replacer s') \<and> evictable (replacer s') ! nat f) \<and>
            (pin_count (pages s' ! nat f) \<noteq> 0 \<longrightarrow> replacer s' = replacer s) \<and>
            data (pages s' ! nat f) = data (pages s ! nat f) \<and>
            page_id (pages s' ! nat f) = page_id (pages s ! nat f) \<and>
            (\<forall>g. g \<noteq> nat f \<longrightarrow> pages s' ! g = pages s ! g) \<and>
            page_table s' = page_table s \<and> free_list s' = free_list s \<and>
            next_page_id s' = next_page_id s \<and> disk s' = disk s \<and>
            (\<exists>s''. FlushPgImp s' pid = Inr (True, s'') \<and> \<not> is_dirty (pages s'' ! nat f))"
proof -
  let ?p = "pages s ! nat f"
  let ?p1 = "?p\<lparr>pin_count := pin_count ?p - 1\<rparr>"
  let ?p2 = "if \<not> is_dirty ?p1 then ?p1\<lparr>is_dirty := dirty\<rparr> else ?p1"
  from fp have fl: "nat f < length (pages s)" by (simp add: frame_in_pool_def)
  from SetEvictable_true[OF rp] obtain rep where rep: "SetEvictable (replacer s) f True = Inr rep"
    and repe: "evictable rep ! nat f" by blast
  let ?rep = "if pin_count ?p - 1 = 0 then rep else replacer s"
  let ?s' = "s\<lparr>replacer := ?rep, pages := (pages s)[nat f := ?p2]\<rparr>"
  have u: "UnpinPgImp s pid dirty = Inr (True, ?s')"
    using pt fp pc rep by (simp add: UnpinPgImp_def Let_def)
  have pg: "pages ?s' ! nat f = ?p2" using fl by simp
  have 1: "pin_count (pages ?s' ! nat f) = pin_count ?p - 1" unfolding pg by simp
  have 2: "is_dirty (pages ?s' ! nat f) = (is_dirty ?p \<or> dirty)" unfolding pg by simp
  have 3: "pin_count (pages ?s' ! nat f) = 0 \<longrightarrow>
        SetEvictable (replacer s) f True = Inr (replacer ?s') \<and> evictable (replacer ?s') ! nat f"
    unfolding 1 using rep repe by simp
  have 4: "pin_count (pages ?s' ! nat f) \<noteq> 0 \<longrightarrow> replacer ?s' = replacer s"
    unfolding 1 by simp
  have 5: "data (pages ?s' ! nat f) = data ?p" "page_id (pages ?s' ! nat f) = page_id ?p"
    unfolding pg by simp_all
  have 6: "\<forall>g. g \<noteq> nat f \<longrightarrow> pages ?s' ! g = pages s ! g" by simp
  have 7: "page_table ?s' = page_table s" "free_list ?s' = free_list s"
    "next_page_id ?s' = next_page_id s" "disk ?s' = disk s" by simp_all
  have "page_table ?s' pid = Some f" "frame_in_pool ?s' f"
    using pt fp by (simp_all add: frame_in_pool_def)
  from FlushPgImp_clears[OF this]
  have 8: "\<exists>s''. FlushPgImp ?s' pid = Inr (True, s'') \<and> \<not> is_dirty (pages s'' ! nat f)" .
  from u 1 2 3 4 5 6 7 8 show ?thesis by blast
qed

text \<open>
  Claim C8. \<open>UnpinPage(id, dirty)\<close> returns \<open>false\<close> and changes nothing when the page
  is not resident or its pin count is already zero. Otherwise (the frame being one the
  replacer tracks, as every frame holding a page is) it returns \<open>true\<close>, the pin count is
  one less, the frame is made evictable exactly when the count has reached zero, and
  \<open>is_dirty\<close> becomes \<open>is_dirty \<or> dirty\<close>: a dirty frame stays dirty whatever \<open>dirty\<close>
  is, until \<open>FlushPage\<close> clears the flag. Nothing else changes.
\<close>

theorem UnpinPgImp_contract:
  "(page_table s pid = None \<longrightarrow> UnpinPgImp s pid dirty = Inr (False, s)) \<and>
   (page_table s pid = Some f \<and> frame_in_pool s f \<and> pin_count (pages s ! nat f) = 0 \<longrightarrow>
      UnpinPgImp s pid dirty = Inr (False, s)) \<and>
   (page_table s pid = Some f \<and> frame_in_pool s f \<and> pin_count (pages s ! nat f) \<noteq> 0 \<and>
    IsValidFrameId (replacer s) f \<and> in_bounds (replacer s) f \<and> allocated (replacer s) ! nat f \<longrightarrow>
      (\<exists>s'. UnpinPgImp s pid dirty = Inr (True, s') \<and>
            pin_count (pages s' ! nat f) = pin_count (pages s ! nat f) - 1 \<and>
            is_dirty (pages s' ! nat f) = (is_dirty (pages s ! nat f) \<or> dirty) \<and>
            (pin_count (pages s' ! nat f) = 0 \<longrightarrow>
               SetEvictable (replacer s) f True = Inr (replacer s') \<and> evictable (replacer s') ! nat f) \<and>
            (pin_count (pages s' ! nat f) \<noteq> 0 \<longrightarrow> replacer s' = replacer s) \<and>
            data (pages s' ! nat f) = data (pages s ! nat f) \<and>
            page_id (pages s' ! nat f) = page_id (pages s ! nat f) \<and>
            (\<forall>g. g \<noteq> nat f \<longrightarrow> pages s' ! g = pages s ! g) \<and>
            page_table s' = page_table s \<and> free_list s' = free_list s \<and>
            next_page_id s' = next_page_id s \<and> disk s' = disk s \<and>
            (\<exists>s''. FlushPgImp s' pid = Inr (True, s'') \<and> \<not> is_dirty (pages s'' ! nat f))))"
proof (intro conjI impI)
  assume "page_table s pid = None"
  then show "UnpinPgImp s pid dirty = Inr (False, s)" by (simp add: UnpinPgImp_def)
next
  assume "page_table s pid = Some f \<and> frame_in_pool s f \<and> pin_count (pages s ! nat f) = 0"
  then show "UnpinPgImp s pid dirty = Inr (False, s)" by (simp add: UnpinPgImp_def)
next
  assume a: "page_table s pid = Some f \<and> frame_in_pool s f \<and> pin_count (pages s ! nat f) \<noteq> 0 \<and>
    IsValidFrameId (replacer s) f \<and> in_bounds (replacer s) f \<and> allocated (replacer s) ! nat f"
  then have "page_table s pid = Some f" "frame_in_pool s f" "pin_count (pages s ! nat f) \<noteq> 0"
    "IsValidFrameId (replacer s) f" "in_bounds (replacer s) f" "allocated (replacer s) ! nat f"
    by simp_all
  from UnpinPgImp_pinned[OF this]
  show "\<exists>s'. UnpinPgImp s pid dirty = Inr (True, s') \<and>
            pin_count (pages s' ! nat f) = pin_count (pages s ! nat f) - 1 \<and>
            is_dirty (pages s' ! nat f) = (is_dirty (pages s ! nat f) \<or> dirty) \<and>
            (pin_count (pages s' ! nat f) = 0 \<longrightarrow>
               SetEvictable (replacer s) f True = Inr (replacer s') \<and> evictable (replacer s') ! nat f) \<and>
            (pin_count (pages s' ! nat f) \<noteq> 0 \<longrightarrow> replacer s' = replacer s) \<and>
            data (pages s' ! nat f) = data (pages s ! nat f) \<and>
            page_id (pages s' ! nat f) = page_id (pages s ! nat f) \<and>
            (\<forall>g. g \<noteq> nat f \<longrightarrow> pages s' ! g = pages s ! g) \<and>
            page_table s' = page_table s \<and> free_list s' = free_list s \<and>
            next_page_id s' = next_page_id s \<and> disk s' = disk s \<and>
            (\<exists>s''. FlushPgImp s' pid = Inr (True, s'') \<and> \<not> is_dirty (pages s'' ! nat f))" .
qed

theorem UnpinPgImp_contract_witness:
  "page_table pool1 5 = None \<and> UnpinPgImp pool1 5 True = Inr (False, pool1) \<and>
   page_table pool3 0 = Some 0 \<and> frame_in_pool pool3 0 \<and> pin_count (pages pool3 ! nat 0) = 0 \<and>
   UnpinPgImp pool3 0 False = Inr (False, pool3) \<and>
   page_table pool1 0 = Some 0 \<and> frame_in_pool pool1 0 \<and> pin_count (pages pool1 ! nat 0) \<noteq> 0 \<and>
   IsValidFrameId (replacer pool1) 0 \<and> in_bounds (replacer pool1) 0 \<and>
   allocated (replacer pool1) ! nat 0 \<and>
   (\<exists>s'. UnpinPgImp pool1 0 True = Inr (True, s') \<and>
         pin_count (pages s' ! nat 0) = pin_count (pages pool1 ! nat 0) - 1 \<and>
         is_dirty (pages s' ! nat 0) \<and> evictable (replacer s') ! nat 0 \<and>
         (\<exists>s''. FlushPgImp s' 0 = Inr (True, s'') \<and> \<not> is_dirty (pages s'' ! nat 0)))"
proof -
  have a: "page_table pool1 5 = None" by (simp add: pool1_def)
  have b: "page_table pool3 0 = Some 0 \<and> frame_in_pool pool3 0 \<and> pin_count (pages pool3 ! nat 0) = 0"
    by (simp add: pool3_def frame_in_pool_def)
  have c: "page_table pool1 0 = Some 0 \<and> frame_in_pool pool1 0 \<and> pin_count (pages pool1 ! nat 0) \<noteq> 0 \<and>
   IsValidFrameId (replacer pool1) 0 \<and> in_bounds (replacer pool1) 0 \<and>
   allocated (replacer pool1) ! nat 0"
    by (simp add: pool1_def frame_in_pool_def IsValidFrameId_def in_bounds_def)
  have p: "pin_count (pages pool1 ! nat 0) - 1 = 0" by (simp add: pool1_def)
  from UnpinPgImp_contract[of pool1 5 True 0] a
  have 1: "UnpinPgImp pool1 5 True = Inr (False, pool1)" by simp
  from UnpinPgImp_contract[of pool3 0 False 0] b
  have 2: "UnpinPgImp pool3 0 False = Inr (False, pool3)" by simp
  from UnpinPgImp_contract[of pool1 0 True 0] c
  obtain s' where s': "UnpinPgImp pool1 0 True = Inr (True, s')"
    "pin_count (pages s' ! nat 0) = pin_count (pages pool1 ! nat 0) - 1"
    "is_dirty (pages s' ! nat 0) = (is_dirty (pages pool1 ! nat 0) \<or> True)"
    "pin_count (pages s' ! nat 0) = 0 \<longrightarrow>
       SetEvictable (replacer pool1) 0 True = Inr (replacer s') \<and> evictable (replacer s') ! nat 0"
    "\<exists>s''. FlushPgImp s' 0 = Inr (True, s'') \<and> \<not> is_dirty (pages s'' ! nat 0)"
    by blast
  from s' p have 3: "\<exists>s'. UnpinPgImp pool1 0 True = Inr (True, s') \<and>
         pin_count (pages s' ! nat 0) = pin_count (pages pool1 ! nat 0) - 1 \<and>
         is_dirty (pages s' ! nat 0) \<and> evictable (replacer s') ! nat 0 \<and>
         (\<exists>s''. FlushPgImp s' 0 = Inr (True, s'') \<and> \<not> is_dirty (pages s'' ! nat 0))"
    by simp
  from a b c 1 2 3 show ?thesis by simp
qed

text \<open>
  Claim C10. Every call of \<open>NewPage\<close> that returns hands out \<open>next_page_id\<close> and leaves
  the counter one higher, also the call that finds the free list empty and nothing to
  evict and returns \<open>nullptr\<close>. So when a failed call lies between two successful ones
  (with an \<open>UnpinPage\<close> to make room), the second successful call returns the id of the first
  plus two.
\<close>

theorem NewPgImp_allocates_once:
  "(NewPgImp s = Inr ((pid, res), s') \<longrightarrow>
      pid = next_page_id s \<and> next_page_id s' = next_page_id s + 1) \<and>
   (free_list s = [] \<and> Size (replacer s) = 0 \<longrightarrow>
      NewPgImp s = Inr ((next_page_id s, None), s\<lparr>next_page_id := next_page_id s + 1\<rparr>)) \<and>
   (NewPgImp s = Inr ((p0, Some f0), s1) \<and> NewPgImp s1 = Inr ((p1, None), s2) \<and>
    UnpinPgImp s2 q d = Inr (b, s3) \<and> NewPgImp s3 = Inr ((p3, Some f3), s4) \<longrightarrow>
      p1 = p0 + 1 \<and> p3 = p0 + 2)"
proof (intro conjI impI)
  assume "NewPgImp s = Inr ((pid, res), s')"
  from NewPgImp_next_page_id[OF this]
  show "pid = next_page_id s" "next_page_id s' = next_page_id s + 1" by simp_all
next
  assume "free_list s = [] \<and> Size (replacer s) = 0"
  then show "NewPgImp s = Inr ((next_page_id s, None), s\<lparr>next_page_id := next_page_id s + 1\<rparr>)"
    by (simp add: NewPgImp_fails)
next
  assume a: "NewPgImp s = Inr ((p0, Some f0), s1) \<and> NewPgImp s1 = Inr ((p1, None), s2) \<and>
    UnpinPgImp s2 q d = Inr (b, s3) \<and> NewPgImp s3 = Inr ((p3, Some f3), s4)"
  then have "p0 = next_page_id s \<and> next_page_id s1 = next_page_id s + 1"
    "p1 = next_page_id s1 \<and> next_page_id s2 = next_page_id s1 + 1"
    "next_page_id s3 = next_page_id s2"
    "p3 = next_page_id s3 \<and> next_page_id s4 = next_page_id s3 + 1"
    using NewPgImp_next_page_id UnpinPgImp_next_page_id by blast+
  then show "p1 = p0 + 1" "p3 = p0 + 2" by simp_all
qed

theorem NewPgImp_allocates_once_witness:
  "NewPgImp pool0 = Inr ((0, Some 0), pool1) \<and>
   free_list pool1 = [] \<and> Size (replacer pool1) = 0 \<and>
   NewPgImp pool1 = Inr ((1, None), pool1\<lparr>next_page_id := 2\<rparr>) \<and>
   UnpinPgImp (pool1\<lparr>next_page_id := 2\<rparr>) 0 True = Inr (True, pool3) \<and>
   NewPgImp pool3 = Inr ((2, Some 0), pool4) \<and>
   next_page_id pool1 = next_page_id pool0 + 1 \<and> (2::int) = 0 + 2"
proof -
  have a: "NewPgImp pool0 = Inr ((0, Some 0), pool1)"
    by (simp add: pool0_def pool1_def pool_eval)
  have b: "free_list pool1 = [] \<and> Size (replacer pool1) = 0"
    by (simp add: pool1_def Size_def)
  have c: "UnpinPgImp (pool1\<lparr>next_page_id := 2\<rparr>) 0 True = Inr (True, pool3)"
    by (simp add: pool1_def pool3_def pool_eval)
  have d: "NewPgImp pool3 = Inr ((2, Some 0), pool4)"
    by (simp add: pool3_def pool4_def pool_eval fun_eq_iff)
  have n1: "next_page_id pool1 = 1" by (simp add: pool1_def)
  have "NewPgImp pool1 =
      Inr ((next_page_id pool1, None), pool1\<lparr>next_page_id := next_page_id pool1 + 1\<rparr>)"
    using conjunct1[OF conjunct2[OF NewPgImp_allocates_once[where s = pool1]]] b by (rule mp)
  then have e: "NewPgImp pool1 = Inr ((1, None), pool1\<lparr>next_page_id := 2\<rparr>)"
    by (simp add: n1)
  have "(1::int) = 0 + 1 \<and> (2::int) = 0 + 2"
    using conjunct2[OF conjunct2[OF NewPgImp_allocates_once[where s = pool0 and ?p0.0 = 0
      and ?f0.0 = 0 and ?s1.0 = pool1 and ?p1.0 = 1
      and ?s2.0 = "pool1\<lparr>next_page_id := 2\<rparr>" and q = 0 and d = True and b = True
      and ?s3.0 = pool3 and ?p3.0 = 2 and ?f3.0 = 0 and ?s4.0 = pool4]]] a e c d
    by blast
  moreover have "next_page_id pool1 = next_page_id pool0 + 1"
    using conjunct1[OF NewPgImp_allocates_once[where s = pool0 and pid = 0 and res = "Some 0"
      and s' = pool1]] a by blast
  ultimately have f: "next_page_id pool1 = next_page_id pool0 + 1 \<and> (2::int) = 0 + 2" by blast
  from a b c d e f show ?thesis by blast
qed

section \<open>Properties of the B+ tree\<close>

text \<open>
  For evaluating the tree on concrete pages: the continuation of a \<open>bindE\<close> is left
  alone until its first argument has been computed.
\<close>

lemma bindE_cong: "m = m' \<Longrightarrow> bindE m f = bindE m' f"
  by simp

lemmas tree_eval = GetValue_def InsertInternal_split_def Insert_def child_index_def set_parent_key_def
  rewire_child_def borrow_left_def borrow_right_def merge_leaf_def merge_internal_def merged_index_def
  shift_left_from_def merge_siblings_def merge_pick_def merge_entries_def merge_parent_def
  try_borrow_left_def try_borrow_right_def merge_unless_only_child_def
  RemoveInternal_rebalance_def Remove_tree_def
  first_key_def IsEmpty_def NewPage_def FetchPage_def UnpinPage_def DeletePage_def get_page_def put_page_def
  upd_page_def NodeAt_def SetKeyAt_def InsertIntoLeaf_def LowerBoundLeaf_def internal_index_def
  InsertIntoInternal_def LowerBoundInternal_def IsOverFlowed_def IsUnderFlowed_def RemoveFromLeaf_def
  IsLeafPage_def GetSize_def GetMinSize_def SetSize_def zero_page_def leaf_Init_def internal_Init_def
  BPlusTree_new_def INVALID_PAGE_ID_def comparator_def leaf_Insert_index.simps Let_def
  numeral_3_eq_3

lemma bindE_eq_Inr: "(bindE m f = Inr y) = (\<exists>x. m = Inr x \<and> f x = Inr y)"
  by (cases m) auto

lemma bindE_E:
  assumes "bindE m f = Inr y"
  obtains x where "m = Inr x" "f x = Inr y"
  using assms by (cases m) auto

subsection \<open>The example trees are what the operations produce\<close>

lemma tree_1_reached: "Insert_keys 3 (BPlusTree_new 4 4 1) [1] = Inr tree_1"
  by (simp add: Insert_keys_def tree_1_def tree_eval cong: bindE_cong)

lemma tree_1_empty_reached: "Remove_tree 3 tree_1 1 = Inr tree_1_empty"
  by (simp add: tree_1_def tree_1_empty_def tree_eval cong: bindE_cong)

lemma tree_1_6_reached:
  "Insert_keys 3 (BPlusTree_new 4 4 1) [1, 2, 3, 4, 5, 6] = Inr tree_1_6"
  by (simp add: Insert_keys_def tree_1_6_def tree_eval cong: bindE_cong)

lemma tree_rm3_reached: "Remove_tree 3 tree_1_6 3 = Inr tree_rm3"
  by (simp add: tree_1_6_def tree_rm3_def tree_eval cong: bindE_cong)

lemma tree_rm3_rm6_reached: "Remove_tree 3 tree_rm3 6 = Inr tree_rm3_rm6"
  by (simp add: tree_rm3_def tree_rm3_rm6_def tree_eval cong: bindE_cong)

lemma GetValue_tree_rm3_rm6: "GetValue 3 tree_rm3_rm6 6 [] = Inr ((True, [60]), tree_rm3_rm6)"
  by (simp add: tree_rm3_rm6_def tree_eval cong: bindE_cong)

lemma tree_rm1_reached: "Remove_tree 3 tree_1_6 1 = Inr tree_rm1"
  by (simp add: tree_1_6_def tree_rm1_def tree_eval cong: bindE_cong)

lemma tree_rm1_7_10_reached: "Insert_keys 3 tree_rm1 [7, 8, 9, 10] = Inr tree_rm1_7_10"
  by (simp add: Insert_keys_def tree_rm1_def tree_rm1_7_10_def tree_eval cong: bindE_cong)

subsection \<open>\<open>Remove\<close> and the root\<close>

lemma root_put_page [simp]: "root_page_id (put_page t pid p) = root_page_id t"
  by (simp add: put_page_def split: option.splits prod.splits)

lemma root_UnpinPage [simp]: "root_page_id (UnpinPage t pid d) = root_page_id t"
  by (simp add: UnpinPage_def split: option.splits prod.splits)

lemma root_DeletePage [simp]: "root_page_id (DeletePage t pid) = root_page_id t"
  by (simp add: DeletePage_def split: option.splits prod.splits)

lemma root_FetchPage: "FetchPage t pid = Inr t' \<Longrightarrow> root_page_id t' = root_page_id t"
  by (auto simp: FetchPage_def split: option.splits prod.splits)

lemma root_upd_page: "upd_page t pid f = Inr t' \<Longrightarrow> root_page_id t' = root_page_id t"
  by (auto simp: upd_page_def bindE_eq_Inr)

lemma root_set_parent_key:
  "set_parent_key t pid i key = Inr t' \<Longrightarrow> root_page_id t' = root_page_id t"
  by (auto simp: set_parent_key_def bindE_eq_Inr)

lemma root_rewire_child:
  "rewire_child t pid c = Inr t' \<Longrightarrow> root_page_id t' = root_page_id t"
  by (auto simp: rewire_child_def bindE_eq_Inr dest!: root_FetchPage root_upd_page)

lemma root_borrow_left:
  "borrow_left t pid parent_id index left_id = Inr (b, t') \<Longrightarrow> root_page_id t' = root_page_id t"
  unfolding borrow_left_def Let_def
  by (auto simp: bindE_eq_Inr split: if_splits
      dest!: root_FetchPage root_upd_page root_set_parent_key root_rewire_child)

lemma root_borrow_right:
  "borrow_right t pid parent_id index right_id = Inr (b, t') \<Longrightarrow> root_page_id t' = root_page_id t"
  unfolding borrow_right_def Let_def
  by (auto simp: bindE_eq_Inr split: if_splits
      dest!: root_FetchPage root_upd_page root_set_parent_key root_rewire_child)

lemma root_merge_pick:
  "merge_pick t pid parent_id index = Inr (l, r, t') \<Longrightarrow> root_page_id t' = root_page_id t"
  unfolding merge_pick_def
  by (auto simp: bindE_eq_Inr split: if_splits dest!: root_FetchPage)

lemma root_merge_entries:
  "merge_entries t l r = Inr t' \<Longrightarrow> root_page_id t' = root_page_id t"
  unfolding merge_entries_def
  by (auto simp: bindE_eq_Inr split: if_splits dest!: root_upd_page)

lemma root_merge_parent:
  "merge_parent t parent_id r = Inr t' \<Longrightarrow> root_page_id t' = root_page_id t"
  unfolding merge_parent_def
  by (auto simp: bindE_eq_Inr dest!: root_upd_page)

lemma root_merge_siblings:
  "merge_siblings t pid parent_id index = Inr t' \<Longrightarrow> root_page_id t' = root_page_id t"
  unfolding merge_siblings_def
  by (auto simp: bindE_eq_Inr dest!: root_merge_pick root_merge_entries root_merge_parent)

lemma root_try_borrow_left:
  "try_borrow_left t pid parent_id index = Inr (b, t') \<Longrightarrow> root_page_id t' = root_page_id t"
  unfolding try_borrow_left_def
  by (auto simp: bindE_eq_Inr split: if_splits dest!: root_borrow_left)

lemma root_try_borrow_right:
  "try_borrow_right t pid parent_id index = Inr (b, t') \<Longrightarrow> root_page_id t' = root_page_id t"
  unfolding try_borrow_right_def
  by (auto simp: bindE_eq_Inr split: if_splits dest!: root_borrow_right)

lemma root_merge_unless_only_child:
  "merge_unless_only_child t pid parent_id index = Inr t' \<Longrightarrow> root_page_id t' = root_page_id t"
  unfolding merge_unless_only_child_def
  by (auto simp: bindE_eq_Inr split: if_splits dest!: root_merge_siblings)

lemma root_rebalance:
  "RemoveInternal_rebalance t pid = Inr t' \<Longrightarrow> root_page_id t' = root_page_id t"
  unfolding RemoveInternal_rebalance_def
  apply (erule bindE_E)+
  apply (clarsimp split: if_splits)
   apply (drule root_FetchPage, drule root_try_borrow_left, simp)
  apply (erule bindE_E)
  apply (clarsimp split: if_splits)
   apply (drule root_FetchPage, drule root_try_borrow_left, drule root_try_borrow_right, simp)
  apply (drule root_FetchPage, drule root_try_borrow_left, drule root_try_borrow_right,
      drule root_merge_unless_only_child, simp)
  done

lemma root_RemoveInternal:
  "RemoveInternal_tree n t pid key = Inr t' \<Longrightarrow> root_page_id t' = root_page_id t"
proof (induction n arbitrary: t pid t')
  case 0
  then show ?case by simp
next
  case (Suc n)
  from Suc.prems obtain t1 cur x where
    f: "FetchPage t pid = Inr t1" and
    step: "(if IsLeafPage cur then
              (let (removed, cur') = RemoveFromLeaf cur key
               in if removed then Inr (True, put_page t1 pid cur')
                  else Inr (False, UnpinPage t1 pid False))
            else
              bindE (LowerBoundInternal cur key) (\<lambda>node.
              bindE (RemoveInternal_tree n t1 (snd node) key) (\<lambda>t2. Inr (True, t2)))) = Inr x" and
    rest: "(case x of (go_on, t2) \<Rightarrow>
       if \<not> go_on then Inr t2
       else
         bindE (get_page t2 pid) (\<lambda>cur2.
           if root_page_id t2 = pid \<or> \<not> IsUnderFlowed cur2
           then Inr (UnpinPage t2 pid True)
           else RemoveInternal_rebalance t2 pid)) = Inr t'"
    by (auto simp: bindE_eq_Inr)
  obtain go_on t2 where x: "x = (go_on, t2)" by (cases x)
  have r1: "root_page_id t1 = root_page_id t" using f by (rule root_FetchPage)
  have r2: "root_page_id t2 = root_page_id t1"
  proof (cases "IsLeafPage cur")
    case True
    with step x show ?thesis by (auto simp: Let_def split: prod.splits if_splits)
  next
    case False
    with step x obtain node where "RemoveInternal_tree n t1 (snd node) key = Inr t2"
      by (auto simp: bindE_eq_Inr)
    then show ?thesis by (rule Suc.IH)
  qed
  have r3: "root_page_id t' = root_page_id t2"
  proof (cases go_on)
    case False
    with rest x show ?thesis by simp
  next
    case True
    with rest x obtain cur2 where
      "(if root_page_id t2 = pid \<or> \<not> IsUnderFlowed cur2
           then Inr (UnpinPage t2 pid True)
           else RemoveInternal_rebalance t2 pid) = Inr t'"
      by (auto simp: bindE_eq_Inr)
    then show ?thesis
      by (cases "root_page_id t2 = pid \<or> \<not> IsUnderFlowed cur2")
         (auto dest: root_rebalance)
  qed
  from r1 r2 r3 show ?case by simp
qed

text \<open>
  Claim C2, as the source has it. No path of \<open>Remove\<close> assigns \<open>root_page_id\<close>: whenever
  \<open>Remove\<close> returns, the root page id is the one it started with. There is no root
  collapse, and a tree whose last key has been removed keeps its root, an empty leaf.
\<close>

theorem Remove_keeps_root_page_id:
  "Remove_tree fuel t key = Inr t' \<Longrightarrow> root_page_id t' = root_page_id t"
  by (auto simp: Remove_tree_def dest: root_RemoveInternal split: if_splits)

theorem Remove_keeps_root_page_id_witness:
  "Remove_tree 3 tree_1_6 3 = Inr tree_rm3 \<and> root_page_id tree_rm3 = root_page_id tree_1_6 \<and>
   Remove_tree 3 tree_1 1 = Inr tree_1_empty \<and> root_page_id tree_1_empty = root_page_id tree_1"
  using Remove_keeps_root_page_id[of 3 tree_1_6 3 tree_rm3]
    Remove_keeps_root_page_id[of 3 tree_1 1 tree_1_empty]
    tree_rm3_reached tree_1_empty_reached
  by simp

text \<open>
  The claim as stated fails on the tree that holds the single key 1: after \<open>Remove(1)\<close>
  the tree has no key left, and \<open>root_page_id\<close> is still 1, the id of the empty leaf, not
  \<open>INVALID_PAGE_ID\<close>.
\<close>

theorem Remove_last_key_keeps_root:
  "Insert_keys 3 (BPlusTree_new 4 4 1) [1] = Inr tree_1 \<and>
   Remove_tree 3 tree_1 1 = Inr tree_1_empty \<and>
   root_page_id tree_1_empty = 1 \<and> root_page_id tree_1_empty \<noteq> INVALID_PAGE_ID \<and>
   \<not> IsEmpty tree_1_empty \<and>
   get_page tree_1_empty 1 =
     Inr \<lparr>page_type = LEAF_PAGE, max_size = 4, parent_page_id = - 1, bt_page_id = 1,
          bt_next_page_id = - 1, array = []\<rparr>"
  by (simp add: tree_1_reached tree_1_empty_reached)
    (simp add: tree_1_empty_def get_page_def INVALID_PAGE_ID_def IsEmpty_def)

subsection \<open>Merging two leaves\<close>

text \<open>
  Claim C3. On the tree with the keys 1 to 6 (root page 2 with the leaves 1, 3 and 4),
  \<open>Remove(3)\<close> merges leaf 4 into leaf 3. The claim asks for a parent that is one slot
  shorter, names page 4 no more, and for page 4 to be handed back to the pool. The source
  leaves the parent exactly as it was, three slots with page 4 in the last, and page 4
  stays in the pool with its old contents and one pin.
\<close>

theorem merge_leaves_parent_and_right_page:
  "Insert_keys 3 (BPlusTree_new 4 4 1) [1, 2, 3, 4, 5, 6] = Inr tree_1_6 \<and>
   get_page tree_1_6 2 =
     Inr \<lparr>page_type = INTERNAL_PAGE, max_size = 4, parent_page_id = - 1, bt_page_id = 2,
          bt_next_page_id = 0, array = [(0, 1), (3, 3), (5, 4)]\<rparr> \<and>
   Remove_tree 3 tree_1_6 3 = Inr tree_rm3 \<and>
   get_page tree_rm3 2 =
     Inr \<lparr>page_type = INTERNAL_PAGE, max_size = 4, parent_page_id = - 1, bt_page_id = 2,
          bt_next_page_id = 0, array = [(0, 1), (3, 3), (5, 4)]\<rparr> \<and>
   get_page tree_rm3 3 =
     Inr \<lparr>page_type = LEAF_PAGE, max_size = 4, parent_page_id = 2, bt_page_id = 3,
          bt_next_page_id = - 1, array = [(4, 40), (5, 50), (6, 60)]\<rparr> \<and>
   map_of (frames tree_rm3) 4 =
     Some (\<lparr>page_type = LEAF_PAGE, max_size = 4, parent_page_id = 2, bt_page_id = 4,
            bt_next_page_id = - 1, array = [(5, 50), (6, 60)]\<rparr>, 1)"
  by (simp add: tree_1_6_reached tree_rm3_reached)
    (simp add: tree_1_6_def tree_rm3_def get_page_def)

subsection \<open>Search after remove\<close>

text \<open>
  Claim C1. After \<open>Remove(k)\<close> a search for \<open>k\<close> should report not-found. On the tree with
  the keys 1 to 6, \<open>Remove(3)\<close> merges leaf 4 into leaf 3 and leaves leaf 4 in place, still
  named by the root (the theorem of claim C3). \<open>Remove(6)\<close> then takes 6 out of leaf 4,
  finds leaf 4 underflowed and borrows from leaf 3 its last entry, which is a copy of the
  entry just removed. \<open>GetValue(6)\<close> returns \<open>true\<close> with the value 60.
\<close>

theorem Remove_then_GetValue_finds_key:
  "Insert_keys 3 (BPlusTree_new 4 4 1) [1, 2, 3, 4, 5, 6] = Inr tree_1_6 \<and>
   Remove_tree 3 tree_1_6 3 = Inr tree_rm3 \<and>
   Remove_tree 3 tree_rm3 6 = Inr tree_rm3_rm6 \<and>
   GetValue 3 tree_rm3_rm6 6 [] = Inr ((True, [60]), tree_rm3_rm6)"
  by (simp add: tree_1_6_reached tree_rm3_reached tree_rm3_rm6_reached GetValue_tree_rm3_rm6)

subsection \<open>Parent pointers\<close>

text \<open>
  Claim C4. Every child should record as its parent the internal page that holds its
  entry. On the tree with the keys 1 to 6, \<open>Remove(1)\<close> merges leaf 3 into leaf 1 and
  leaves page 4 named twice in the root (page 2); inserting 7 to 10 then splits page 2, and
  the new sibling, page 8, takes over page 4 and sets its parent. Page 2 keeps a slot for
  page 4, whose recorded parent is page 8.
\<close>

theorem split_after_merge_breaks_parent_pointer:
  "Insert_keys 3 (BPlusTree_new 4 4 1) [1, 2, 3, 4, 5, 6] = Inr tree_1_6 \<and>
   Remove_tree 3 tree_1_6 1 = Inr tree_rm1 \<and>
   Insert_keys 3 tree_rm1 [7, 8, 9, 10] = Inr tree_rm1_7_10 \<and>
   child_parents tree_rm1_7_10 2 = Inr [(1, 2), (4, 8)]"
  by (simp add: tree_1_6_reached tree_rm1_reached tree_rm1_7_10_reached)
    (simp add: tree_rm1_7_10_def child_parents_def get_page_def)

text \<open>
  The borrow code itself, on the hand-written tree \<open>tree_thin\<close>: \<open>Remove(60)\<close> leaves
  page 30 underflowed, and page 30 borrows child 3 from page 20. The source then fetches
  slot 0 of page 30, which is page 4, and calls \<open>SetPageId\<close> on it: the header of page 4
  now says that its page id is 30, and page 3, the child that changed hands, still
  records page 20 as its parent.
\<close>

lemma borrow_into_internal_page:
  "bindE (Remove_tree 3 tree_thin 60) (\<lambda>t. child_parents t 30) = Inr [(4, 30), (3, 20)] \<and>
   bindE (Remove_tree 3 tree_thin 60) (\<lambda>t. get_page t 4) =
     Inr \<lparr>page_type = LEAF_PAGE, max_size = 4, parent_page_id = 30, bt_page_id = 30,
          bt_next_page_id = - 1, array = [(70, 700), (80, 800)]\<rparr>"
  by (simp add: tree_thin_def child_parents_def tree_eval cong: bindE_cong)

section \<open>Properties of the extendible hash table\<close>

lemma assign_up_two:
  assumes "idx < 2 ^ g"
  shows "assign_up d idx g (2 ^ Suc g) False old new = d[idx := old, idx + 2 ^ g := new]"
proof -
  have 1: "idx < 2 ^ Suc g" using assms by simp
  have 2: "idx + 2 ^ g < 2 ^ Suc g" using assms by simp
  have 3: "\<not> idx + 2 ^ g + 2 ^ g < 2 ^ Suc g" by simp
  show ?thesis
    apply (subst assign_up.simps)
    apply (simp only: 1 if_True if_False)
    apply (subst assign_up.simps)
    apply (simp only: 2 if_True if_False not_False_eq_True)
    apply (subst assign_up.simps)
    apply (simp only: 3 if_False)
    done
qed

lemma assign_down_one:
  assumes "idx < 2 ^ g"
  shows "assign_down d (int idx) g False old new = d[idx := old]"
proof -
  have 1: "int idx \<ge> 0" by simp
  have 2: "\<not> int idx - 2 ^ g \<ge> 0"
  proof -
    have "int idx < 2 ^ g" using assms by (metis of_nat_less_iff of_nat_numeral of_nat_power)
    then show ?thesis by simp
  qed
  show ?thesis
    apply (subst assign_down.simps)
    apply (simp only: 1 if_True if_False nat_int)
    apply (subst assign_down.simps)
    apply (simp only: 2 if_False)
    done
qed

lemma mod_double:
  fixes h m :: nat
  shows "h mod (2 * m) = h mod m \<or> h mod (2 * m) = h mod m + m"
proof -
  have "h mod (m * 2) = m * (h div m mod 2) + h mod m" by (rule mod_mult2_eq)
  moreover have "h div m mod 2 = 0 \<or> h div m mod 2 = 1" by auto
  ultimately show ?thesis by (auto simp: mult.commute)
qed

lemma split_stuck:
  assumes "stuck t key val"
  shows "\<exists>t'. split_bucket t (IndexOf t key) = Inr t' \<and> stuck t' key val"
proof -
  define g where "g = global_depth t"
  define idx where "idx = IndexOf t key"
  define old where "old = dir t ! idx"
  define new where "new = length (buckets t)"
  define empty_bk :: "('a, 'b) Bucket" where "empty_bk = \<lparr>bsize = 1, depth = g, items = []\<rparr>"
  define full_bk :: "('a, 'b) Bucket" where "full_bk = \<lparr>bsize = 1, depth = g, items = [(key, val)]\<rparr>"
  from assms have len: "length (dir t) = 2 ^ g" and bs: "bucket_size t = 1"
    and old: "old < new" and bk: "buckets t ! old = full_bk"
    by (auto simp: stuck_def g_def idx_def old_def new_def full_bk_def)
  have idx: "idx < 2 ^ g" by (simp add: IndexOf_def idx_def g_def)
  have ba: "bucket_at t idx = Inr (old, full_bk)"
    using len idx old bk by (simp add: bucket_at_def old_def new_def)
  define d where "d = (dir t @ dir t)[idx := old, idx + 2 ^ g := new]"
  have d2: "assign_down (assign_up (dir t @ dir t) idx g (2 ^ Suc g) False old new)
              (int idx) g False old new = d"
  proof -
    have ne: "idx + 2 ^ g \<noteq> idx" by simp
    have "assign_down (assign_up (dir t @ dir t) idx g (2 ^ Suc g) False old new)
              (int idx) g False old new = d[idx := old]"
      unfolding assign_up_two[OF idx] assign_down_one[OF idx] d_def ..
    also have "\<dots> = d"
      unfolding d_def using ne by (simp add: list_update_swap[of "idx + 2 ^ g" idx])
    finally show ?thesis .
  qed
  have lend: "length d = 2 ^ Suc g" using len by (simp add: d_def)
  define idx' where "idx' = hash_fn t key mod 2 ^ Suc g"
  have idx': "idx' = idx \<or> idx' = idx + 2 ^ g"
    using mod_double[of "hash_fn t key" "2 ^ g"] by (simp add: IndexOf_def idx'_def idx_def g_def)
  have idx'lt: "idx' < 2 ^ Suc g" by (simp add: idx'_def)
  define tgt where "tgt = d ! idx'"
  have tgt: "tgt = old \<or> tgt = new"
    using idx' idx len by (auto simp: nth_list_update tgt_def d_def)
  define bs0 where "bs0 = buckets t @ [empty_bk]"
  define bs1 where "bs1 = bs0[old := empty_bk]"
  define bs2 where "bs2 = bs1[tgt := full_bk]"
  have l0: "length bs0 = Suc new" by (simp add: bs0_def new_def)
  have b0old: "bs0 ! old = full_bk" using old bk by (simp add: bs0_def nth_append new_def)
  have b0new: "bs0 ! new = empty_bk" by (simp add: bs0_def new_def)
  have b1: "bs1 ! tgt = empty_bk" "tgt < length bs1"
    using tgt old l0 b0new by (auto simp: bs1_def nth_list_update)
  define t3 where "t3 = t\<lparr>global_depth := Suc g, dir := d, buckets := bs0\<rparr>"
  define t4 where "t4 = t3\<lparr>buckets := bs2\<rparr>"
  have rem: "snd (Bucket_Remove full_bk key) = empty_bk"
    by (simp add: Bucket_Remove_def full_bk_def empty_bk_def)
  have ins: "snd (Bucket_Insert empty_bk key val) = full_bk"
    by (simp add: Bucket_Insert_def Bucket_IsFull_def full_bk_def empty_bk_def)
  have red: "redistribute t3 old [(key, val)] = Inr t4"
  proof -
    have 1: "old < length (buckets t3)" using old l0 by (simp add: t3_def)
    have 2: "buckets t3 ! old = full_bk" using b0old by (simp add: t3_def)
    define t31 where "t31 = t3\<lparr>buckets := (buckets t3)[old := empty_bk]\<rparr>"
    have 3: "IndexOf t31 key = idx'" by (simp add: t31_def t3_def IndexOf_def idx'_def)
    have 4: "bucket_at t31 idx' = Inr (tgt, empty_bk)"
      using idx'lt lend b1 by (simp add: bucket_at_def t31_def t3_def tgt_def bs1_def)
    have 5: "t31\<lparr>buckets := (buckets t31)[tgt := full_bk]\<rparr> = t4"
      by (simp add: t31_def t4_def t3_def bs2_def bs1_def)
    show ?thesis
      using 1 by (simp add: Let_def 2 rem t31_def[symmetric] 3 4 ins 5)
  qed
  define bs3 where "bs3 = bs2[old := (bs2 ! old)\<lparr>depth := depth (bs2 ! old) + 1\<rparr>]"
  define bs4 where "bs4 = bs3[new := (bs3 ! new)\<lparr>depth := depth (bs3 ! new) + 1\<rparr>]"
  define t' where "t' = t4\<lparr>buckets := bs4, num_buckets := num_buckets t4 + 1\<rparr>"
  have l2: "length bs2 = Suc new" by (simp add: bs2_def bs1_def l0)
  have sp: "split_bucket t idx = Inr t'"
  proof -
    have a: "t\<lparr>global_depth := Suc g,
                 buckets := buckets t @ [\<lparr>bsize = bucket_size t, depth = g, items = []\<rparr>],
                 dir := d\<rparr> = t3"
      by (simp add: t3_def bs0_def empty_bk_def bs)
    have b: "depth full_bk = global_depth t" by (simp add: full_bk_def g_def)
    have c: "items full_bk = [(key, val)]" by (simp add: full_bk_def)
    have e: "old < length (buckets t4) \<and> length (buckets t) < length (buckets t4)"
      using old l2 by (simp add: t4_def new_def)
    show ?thesis
      unfolding split_bucket_def ba
      using d2 red e
      by (simp del: redistribute.simps
          add: Let_def b c g_def[symmetric] new_def[symmetric] a t'_def bs3_def bs4_def t4_def)
  qed
  have fin: "bs4 ! tgt = \<lparr>bsize = 1, depth = Suc g, items = [(key, val)]\<rparr>"
  proof -
    have x: "bs2 ! tgt = full_bk" using b1 by (simp add: bs2_def)
    from tgt show ?thesis
    proof
      assume o: "tgt = old"
      then have "bs3 ! tgt = \<lparr>bsize = 1, depth = Suc g, items = [(key, val)]\<rparr>"
        using x l2 old by (simp add: bs3_def full_bk_def)
      then show ?thesis using o old by (simp add: bs4_def)
    next
      assume n: "tgt = new"
      then have "bs3 ! tgt = full_bk" using x old by (simp add: bs3_def)
      then show ?thesis using n l2 by (simp add: bs4_def bs3_def full_bk_def)
    qed
  qed
  have "stuck t' key val"
  proof -
    have 1: "global_depth t' = Suc g" "dir t' = d" "bucket_size t' = 1" "buckets t' = bs4"
      "hash_fn t' = hash_fn t"
      using bs by (simp_all add: t'_def t4_def t3_def)
    have 2: "IndexOf t' key = idx'" by (simp add: IndexOf_def 1 idx'_def)
    have 3: "length bs4 = Suc new" by (simp add: bs4_def bs3_def l2)
    have 4: "tgt < length bs4" using tgt old 3 by auto
    show ?thesis
      unfolding stuck_def 2 unfolding 1 using lend fin 4 by (simp add: tgt_def)
  qed
  with sp show ?thesis unfolding idx_def by blast
qed

lemma stuck_full:
  assumes "stuck t key val"
  shows "bucket_at t (IndexOf t key) =
           Inr (dir t ! IndexOf t key, \<lparr>bsize = 1, depth = global_depth t, items = [(key, val)]\<rparr>)"
    and "\<not> fst (Bucket_Insert \<lparr>bsize = 1, depth = global_depth t, items = [(key, val)]\<rparr> key val')"
  using assms by (auto simp: stuck_def bucket_at_def IndexOf_def Bucket_Insert_def Bucket_IsFull_def)

lemma InsertInternal_stuck:
  "stuck t key val \<Longrightarrow> ht_InsertInternal n t key val' True = Inl ht_out_of_fuel"
proof (induction n arbitrary: t)
  case 0
  show ?case by simp
next
  case (Suc n)
  from split_stuck[OF Suc.prems] obtain t' where
    sp: "split_bucket t (IndexOf t key) = Inr t'" and st: "stuck t' key val" by blast
  from Suc.IH[OF st] stuck_full(1)[OF Suc.prems] stuck_full(2)[OF Suc.prems, of val'] sp
  show ?case by simp
qed

lemma Insert_stuck:
  assumes "stuck t key val"
  shows "ht_Insert n t key val' = Inl ht_out_of_fuel"
proof (cases n)
  case 0
  then show ?thesis by (simp add: ht_Insert_def)
next
  case (Suc m)
  have "ht_InsertInternal (Suc m) t key val' False = Inr (False, t)"
    using stuck_full(1)[OF assms] stuck_full(2)[OF assms, of val'] by simp
  with InsertInternal_stuck[OF assms, of "Suc m" val'] Suc show ?thesis
    by (simp add: ht_Insert_def)
qed

lemmas ht_eval = ht_Insert_def ExtendibleHashTable_new_def bucket_at_def IndexOf_def
  Bucket_Insert_def Bucket_IsFull_def Bucket_Remove_def Bucket_Find_def ht_Find_def
  split_bucket_def Let_def assign_up.simps assign_down.simps

lemma table_0_reached: "ht_Insert 1 (ExtendibleHashTable_new 1 nat) 0 10 = Inr table_0"
  by (simp add: table_0_def ht_eval)

lemma table_0_stuck: "stuck table_0 0 10"
  by (simp add: stuck_def table_0_def IndexOf_def)

text \<open>
  Claim C7. A second \<open>Insert(k, v2)\<close> should overwrite the value of \<open>k\<close>. In a table with
  \<open>bucket_size = 1\<close> that holds the key 0, the bucket of 0 is full, \<open>Bucket::Insert\<close>
  refuses before it looks for the key, and every split puts 0 back alone into a full
  bucket: \<open>Insert(0, 20)\<close> splits for as long as it is given fuel and never returns, so
  \<open>Find(0)\<close> never yields 20.
\<close>

theorem upsert_into_full_bucket_never_returns:
  "ht_Insert 1 (ExtendibleHashTable_new 1 nat) 0 10 = Inr table_0 \<and>
   ht_Find table_0 0 = Inr (Some 10) \<and>
   ht_Insert n table_0 0 20 = Inl ht_out_of_fuel"
  using Insert_stuck[OF table_0_stuck, of n 20]
  by (simp add: table_0_reached) (simp add: table_0_def ht_eval)

end
